theory Spec2Isabelle
  imports Complex_Main "HOL-Library.Sublist"
begin

section \<open>Python strings\<close>

text \<open>
  A Python string is modelled as a list of characters, each character being one code
  point below 256 (the Latin-1 range), so that \<open>length\<close> counts code points as
  Python's \<open>len\<close> does. The classifications below are those of the interpreter on
  that range. Strings with code points from 256 on are outside the model.
\<close>

definition code :: "char \<Rightarrow> nat" where
  "code c = of_char c"

text \<open>\<open>str.isspace\<close>, which also decides what \<open>str.strip()\<close> removes and what
  the pattern \<open>\s\<close> matches.\<close>

definition is_space :: "char \<Rightarrow> bool" where
  "is_space c = (code c \<in> {0x09, 0x0A, 0x0B, 0x0C, 0x0D, 0x1C, 0x1D, 0x1E, 0x1F, 0x20, 0x85, 0xA0})"

text \<open>The decimal digits \<open>0\<close> to \<open>9\<close>: what the pattern \<open>\d\<close> matches and what
  \<open>int\<close> and \<open>float\<close> accept as a digit.\<close>

definition is_decimal :: "char \<Rightarrow> bool" where
  "is_decimal c = (0x30 \<le> code c \<and> code c \<le> 0x39)"

text \<open>\<open>str.isdigit\<close> on one character: the decimal digits and the superscript digits
  two, three and one (code points B2, B3 and B9), which \<open>int\<close> does not accept.\<close>

definition is_digit :: "char \<Rightarrow> bool" where
  "is_digit c = (is_decimal c \<or> code c \<in> {0xB2, 0xB3, 0xB9})"

text \<open>\<open>str.lower\<close> on one character: the letters \<open>A\<close> to \<open>Z\<close> and the accented capitals
  of the range (code points C0 to DE without the multiplication sign D7) move up by 32.\<close>

definition to_lower :: "char \<Rightarrow> char" where
  "to_lower c =
     (if (0x41 \<le> code c \<and> code c \<le> 0x5A) \<or> (0xC0 \<le> code c \<and> code c \<le> 0xDE \<and> code c \<noteq> 0xD7)
      then char_of (code c + 32) else c)"

definition lower :: "string \<Rightarrow> string" where
  "lower s = map to_lower s"

text \<open>\<open>s.strip()\<close>: whitespace is removed at both ends.\<close>

definition strip :: "string \<Rightarrow> string" where
  "strip s = rev (dropWhile is_space (rev (dropWhile is_space s)))"

text \<open>\<open>re.sub(r'\s+', '_', s)\<close>: every maximal run of whitespace becomes one underscore.\<close>

function sub_space_runs :: "string \<Rightarrow> string" where
  "sub_space_runs [] = []"
| "sub_space_runs (c # cs) =
     (if is_space c then CHR ''_'' # sub_space_runs (dropWhile is_space cs)
      else c # sub_space_runs cs)"
  by pat_completeness auto
termination
  by (relation "measure length") (auto simp: le_imp_less_Suc length_dropWhile_le)

section \<open>Filename sanitizer\<close>

text \<open>
  \<^verbatim>\<open>
  def safe_filename(s):
      s = str(s).strip()
      s = re.sub(r'[\\/*?:"<>|]', '_', s)
      s = re.sub(r'\s+', '_', s)
      return s[:200]
  \<close>
  The argument is a worksheet name, a string. \<open>illegal_chars\<close> is the character class
  of the first substitution: backslash, slash, star, question mark, colon, double quote,
  angle brackets and bar.
\<close>

definition illegal_chars :: "char set" where
  "illegal_chars = {CHR 0x5C, CHR ''/'', CHR ''*'', CHR ''?'', CHR '':'', CHR 0x22,
                    CHR ''<'', CHR ''>'', CHR ''|''}"

definition sub_illegal :: "string \<Rightarrow> string" where
  "sub_illegal s = map (\<lambda>c. if c \<in> illegal_chars then CHR ''_'' else c) s"

definition safe_filename :: "string \<Rightarrow> string" where
  "safe_filename s = take 200 (sub_space_runs (sub_illegal (strip s)))"

text \<open>
  The sanitizer in the words of the specification, to be compared with \<open>safe_filename\<close>:
  each of the nine illegal characters becomes an underscore, each run of whitespace
  becomes a single underscore, and the result is cut at 200 characters. Going through
  the string, \<open>in_run\<close> says whether the character before was whitespace, so that only
  the first character of a run writes an underscore. The whitespace characters are listed
  one by one.
\<close>

definition whitespace_chars :: "char set" where
  "whitespace_chars = {CHR 0x09, CHR 0x0A, CHR 0x0B, CHR 0x0C, CHR 0x0D, CHR 0x1C, CHR 0x1D,
                       CHR 0x1E, CHR 0x1F, CHR 0x20, CHR 0x85, CHR 0xA0}"

definition spec_illegal :: "char list" where
  "spec_illegal = [CHR 0x5C, CHR ''/'', CHR ''*'', CHR ''?'', CHR '':'', CHR 0x22,
                   CHR ''<'', CHR ''>'', CHR ''|'']"

fun collapse_runs :: "bool \<Rightarrow> string \<Rightarrow> string" where
  "collapse_runs in_run [] = []"
| "collapse_runs in_run (c # cs) =
     (if c \<in> whitespace_chars
      then (if in_run then collapse_runs True cs else CHR ''_'' # collapse_runs True cs)
      else c # collapse_runs False cs)"

definition sanitize_spec :: "string \<Rightarrow> string" where
  "sanitize_spec s =
     take 200 (collapse_runs False (map (\<lambda>c. if c \<in> set spec_illegal then CHR ''_'' else c) s))"

section \<open>Python values and errors\<close>

text \<open>
  Exceptions are values. \<open>Stopped\<close> stands for the end of the run that \<open>st.stop()\<close>
  causes after an error message.
\<close>

datatype py_error = ValueError | OverflowError | TypeError | IndexError | Stopped

fun and_then :: "py_error + 'a \<Rightarrow> ('a \<Rightarrow> py_error + 'b) \<Rightarrow> py_error + 'b" where
  "and_then (Inl e) f = Inl e"
| "and_then (Inr x) f = f x"

text \<open>
  A binary64 float is given by its exact value, a rational number, or is an infinity or
  not-a-number. The sign of zero is not kept: nothing in the program distinguishes the
  two zeros.
\<close>

datatype py_float = Fin rat | PosInf | NegInf | NaN

text \<open>
  A cell of the data frame (read with \<open>dtype=object\<close>) or the default \<open>""\<close>: \<open>None\<close>,
  a boolean, an integer, a float or a string. An empty cell is the float not-a-number.
  A float cell carries its \<open>str()\<close> text next to its value, since the shortest-repr
  algorithm of the interpreter is not part of this development; the model admits any
  text there, while in the interpreter that text is never blank (\<open>7.0\<close> for the float
  of value 7).
\<close>

datatype pyval = PNone | PBool bool | PInt int | PFloat py_float string | PStr string

subsection \<open>Integers and their decimal text\<close>

definition char_of_digit :: "nat \<Rightarrow> char" where
  "char_of_digit d = char_of (0x30 + d)"

definition digit_val :: "char \<Rightarrow> nat" where
  "digit_val c = code c - 0x30"

function str_nat :: "nat \<Rightarrow> string" where
  "str_nat n = (if n < 10 then [char_of_digit n] else str_nat (n div 10) @ [char_of_digit (n mod 10)])"
  by pat_completeness auto
termination
  by (relation "measure id") auto

declare str_nat.simps [simp del]

text \<open>\<open>str(n)\<close> for an integer \<open>n\<close>.\<close>

definition str_int :: "int \<Rightarrow> string" where
  "str_int i = (if i < 0 then CHR ''-'' # str_nat (nat (- i)) else str_nat (nat i))"

text \<open>The value of a string of decimal digits, as \<open>int\<close> reads it. The interpreter's
  optional limit on the number of digits of such a conversion is not modelled.\<close>

definition nat_of_digits :: "string \<Rightarrow> nat" where
  "nat_of_digits s = foldl (\<lambda>a c. 10 * a + digit_val c) 0 s"

text \<open>\<open>s.zfill(width)\<close>: zeros are inserted after a leading sign character.\<close>

definition zfill :: "nat \<Rightarrow> string \<Rightarrow> string" where
  "zfill width s =
     (if width \<le> length s then s
      else case s of
        [] \<Rightarrow> replicate width (CHR ''0'')
      | c # cs \<Rightarrow>
          if c = CHR ''+'' \<or> c = CHR ''-''
          then c # replicate (width - length s) (CHR ''0'') @ cs
          else replicate (width - length s) (CHR ''0'') @ s)"

subsection \<open>Rounding to binary64\<close>

function bit_length :: "nat \<Rightarrow> nat" where
  "bit_length n = (if n = 0 then 0 else Suc (bit_length (n div 2)))"
  by pat_completeness auto
termination
  by (relation "measure id") auto

declare bit_length.simps [simp del]

definition pow2 :: "int \<Rightarrow> rat" where
  "pow2 i = (if 0 \<le> i then 2 ^ nat i else 1 / 2 ^ nat (- i))"

definition pow10 :: "int \<Rightarrow> rat" where
  "pow10 i = (if 0 \<le> i then 10 ^ nat i else 1 / 10 ^ nat (- i))"

text \<open>For \<open>q > 0\<close>, the integer \<open>e\<close> with \<open>2 ^ e \<le> q < 2 ^ (e + 1)\<close>: the bit lengths
  of numerator and denominator fix it up to one.\<close>

definition floor_log2 :: "rat \<Rightarrow> int" where
  "floor_log2 q =
     (let k = int (bit_length (nat (fst (quotient_of q)))) - int (bit_length (nat (snd (quotient_of q))))
      in if pow2 k \<le> q then k else k - 1)"

definition round_half_even :: "rat \<Rightarrow> int" where
  "round_half_even x =
     (let f = \<lfloor>x\<rfloor>; d = x - of_int f
      in if d < 1 / 2 then f else if 1 / 2 < d then f + 1 else if even f then f else f + 1)"

text \<open>The nearest binary64 magnitude of \<open>q > 0\<close> (53 significant bits, least exponent
  \<open>-1074\<close>, ties to even); the value \<open>2 ^ 1024\<close> stands for overflow.\<close>

definition round_pos :: "rat \<Rightarrow> rat" where
  "round_pos q =
     (let p = max (floor_log2 q - 52) (- 1074)
      in of_int (round_half_even (q / pow2 p)) * pow2 p)"

definition round_binary64 :: "rat \<Rightarrow> py_float" where
  "round_binary64 q =
     (if q = 0 then Fin 0
      else if 2 ^ 1024 \<le> round_pos \<bar>q\<bar> then (if q < 0 then NegInf else PosInf)
      else Fin (if q < 0 then - round_pos \<bar>q\<bar> else round_pos \<bar>q\<bar>))"

subsection \<open>\<open>float(s)\<close> for a string\<close>

text \<open>The whitespace that \<open>float\<close> skips at both ends: the control characters
  \<open>1C\<close> to \<open>1F\<close>, which \<open>strip()\<close> removes, are not among it.\<close>

definition is_float_space :: "char \<Rightarrow> bool" where
  "is_float_space c = (code c \<in> {0x09, 0x0A, 0x0B, 0x0C, 0x0D, 0x20, 0x85, 0xA0})"

text \<open>An underscore is allowed only between two decimal digits.\<close>

fun underscores_ok :: "char \<Rightarrow> string \<Rightarrow> bool" where
  "underscores_ok prev [] = (prev \<noteq> CHR ''_'')"
| "underscores_ok prev (c # cs) =
     ((if c = CHR ''_'' then is_decimal prev
       else if prev = CHR ''_'' then is_decimal c else True)
      \<and> underscores_ok c cs)"

definition split_sign :: "string \<Rightarrow> bool \<times> string" where
  "split_sign s =
     (case s of
        [] \<Rightarrow> (False, [])
      | c # cs \<Rightarrow> if c = CHR ''-'' then (True, cs) else if c = CHR ''+'' then (False, cs) else (False, s))"

text \<open>The exponent part: nothing, or \<open>e\<close> or \<open>E\<close>, an optional sign and at least one
  digit, up to the end of the string.\<close>

definition parse_exponent :: "string \<Rightarrow> int option" where
  "parse_exponent s =
     (case s of
        [] \<Rightarrow> Some 0
      | c # cs \<Rightarrow>
          if c = CHR ''e'' \<or> c = CHR ''E''
          then (let (neg, ds) = split_sign cs
                in if ds \<noteq> [] \<and> list_all is_decimal ds
                   then Some (if neg then - int (nat_of_digits ds) else int (nat_of_digits ds))
                   else None)
          else None)"

definition signed_float :: "bool \<Rightarrow> py_float \<Rightarrow> py_float" where
  "signed_float neg f =
     (if neg then (case f of Fin q \<Rightarrow> Fin (- q) | PosInf \<Rightarrow> NegInf | NegInf \<Rightarrow> PosInf | NaN \<Rightarrow> NaN)
      else f)"

definition parse_float_body :: "string \<Rightarrow> py_error + py_float" where
  "parse_float_body s =
     (let (neg, r) = split_sign s
      in if lower r = ''inf'' \<or> lower r = ''infinity'' then Inr (signed_float neg PosInf)
         else if lower r = ''nan'' then Inr NaN
         else
           let ip = takeWhile is_decimal r;
               r1 = dropWhile is_decimal r;
               fp = (case r1 of [] \<Rightarrow> [] | c # t \<Rightarrow> if c = CHR ''.'' then takeWhile is_decimal t else []);
               r2 = (case r1 of [] \<Rightarrow> [] | c # t \<Rightarrow> if c = CHR ''.'' then dropWhile is_decimal t else r1)
           in if ip = [] \<and> fp = [] then Inl ValueError
              else case parse_exponent r2 of
                     None \<Rightarrow> Inl ValueError
                   | Some ex \<Rightarrow>
                       Inr (signed_float neg
                              (round_binary64 (of_nat (nat_of_digits (ip @ fp)) * pow10 (ex - int (length fp))))))"

text \<open>\<open>float(s)\<close>: underscores are checked and removed, whitespace is skipped at both
  ends, and the rest must be a number, an infinity or a not-a-number as a whole.\<close>

definition float_of_str :: "string \<Rightarrow> py_error + py_float" where
  "float_of_str s =
     (if \<not> underscores_ok (CHR 0x00) s then Inl ValueError
      else let t = rev (dropWhile is_float_space (rev (dropWhile is_float_space (filter (\<lambda>c. c \<noteq> CHR ''_'') s))))
           in if t = [] then Inl ValueError else parse_float_body t)"

subsection \<open>The operations of the program on a cell\<close>

text \<open>\<open>pd.isna(v)\<close>\<close>

fun py_isna :: "pyval \<Rightarrow> bool" where
  "py_isna PNone = True"
| "py_isna (PFloat NaN r) = True"
| "py_isna v = False"

text \<open>\<open>str(v)\<close>\<close>

fun py_str :: "pyval \<Rightarrow> string" where
  "py_str PNone = ''None''"
| "py_str (PBool b) = (if b then ''True'' else ''False'')"
| "py_str (PInt n) = str_int n"
| "py_str (PFloat f r) = r"
| "py_str (PStr s) = s"

text \<open>\<open>float(v)\<close>; an integer too large for a float raises \<open>OverflowError\<close>.\<close>

fun float_of :: "pyval \<Rightarrow> py_error + py_float" where
  "float_of PNone = Inl TypeError"
| "float_of (PBool b) = Inr (Fin (if b then 1 else 0))"
| "float_of (PInt n) =
     (case round_binary64 (of_int n) of
        Fin q \<Rightarrow> Inr (Fin q)
      | _ \<Rightarrow> Inl OverflowError)"
| "float_of (PFloat f r) = Inr f"
| "float_of (PStr s) = float_of_str s"

text \<open>\<open>int(x)\<close> for a float \<open>x\<close>: truncation towards zero.\<close>

fun int_of :: "py_float \<Rightarrow> py_error + int" where
  "int_of (Fin q) = Inr (if q < 0 then \<lceil>q\<rceil> else \<lfloor>q\<rfloor>)"
| "int_of PosInf = Inl OverflowError"
| "int_of NegInf = Inl OverflowError"
| "int_of NaN = Inl ValueError"

section \<open>Roll number normalizer\<close>

text \<open>
  \<^verbatim>\<open>
  def format_roll_value(v):
      if pd.isna(v) or not str(v).strip():
          return "000"
      try:
          return str(int(float(v))).zfill(3)
      except ValueError:
          return str(v).zfill(3)[:3]
  \<close>
  Only \<open>ValueError\<close> is caught; any other exception leaves the function.
\<close>

definition format_roll_value :: "pyval \<Rightarrow> py_error + string" where
  "format_roll_value v =
     (if py_isna v \<or> strip (py_str v) = [] then Inr ''000''
      else case and_then (float_of v) int_of of
             Inr n \<Rightarrow> Inr (zfill 3 (str_int n))
           | Inl ValueError \<Rightarrow> Inr (take 3 (zfill 3 (py_str v)))
           | Inl e \<Rightarrow> Inl e)"

section \<open>Column resolver\<close>

text \<open>
  \<^verbatim>\<open>
  def normalize_col_name(s):
      return re.sub(r'[^a-z0-9]', '', str(s).lower().strip()) if s else ""
  \<close>
  Column labels are strings, as pandas produces them for text headers; the empty string
  is the only falsy one.
\<close>

definition is_lower_alnum :: "char \<Rightarrow> bool" where
  "is_lower_alnum c = ((0x61 \<le> code c \<and> code c \<le> 0x7A) \<or> (0x30 \<le> code c \<and> code c \<le> 0x39))"

definition normalize_col_name :: "string \<Rightarrow> string" where
  "normalize_col_name s = (if s \<noteq> [] then filter is_lower_alnum (strip (lower s)) else [])"

text \<open>\<open>a in norm\<close> for two strings: \<open>a\<close> occurs in \<open>norm\<close> as a contiguous piece.\<close>

fun str_contains :: "string \<Rightarrow> string \<Rightarrow> bool" where
  "str_contains [] a = (a = [])"
| "str_contains (c # cs) a = (take (length a) (c # cs) = a \<or> str_contains cs a)"

text \<open>
  \<^verbatim>\<open>
  def find_column(df_cols_norm, aliases):
      for orig_col, norm in df_cols_norm.items():
          for a in aliases:
              if norm == a:
                  return orig_col
      for orig_col, norm in df_cols_norm.items():
          for a in aliases:
              if a in norm:
                  return orig_col
      return None
  \<close>
  The dictionary is the list of its items in insertion order (\<open>nrm\<close> is the program's \<open>norm\<close>), which is the order of the
  columns. Each of the two passes is a loop over the items with an inner loop over the
  aliases.
\<close>

fun any_alias_equal :: "string \<Rightarrow> string list \<Rightarrow> bool" where
  "any_alias_equal nrm [] = False"
| "any_alias_equal nrm (a # as) = (if nrm = a then True else any_alias_equal nrm as)"

fun any_alias_inside :: "string \<Rightarrow> string list \<Rightarrow> bool" where
  "any_alias_inside nrm [] = False"
| "any_alias_inside nrm (a # as) = (if str_contains nrm a then True else any_alias_inside nrm as)"

fun first_exact :: "(string \<times> string) list \<Rightarrow> string list \<Rightarrow> string option" where
  "first_exact [] aliases = None"
| "first_exact ((orig_col, nrm) # rest) aliases =
     (if any_alias_equal nrm aliases then Some orig_col else first_exact rest aliases)"

fun first_inside :: "(string \<times> string) list \<Rightarrow> string list \<Rightarrow> string option" where
  "first_inside [] aliases = None"
| "first_inside ((orig_col, nrm) # rest) aliases =
     (if any_alias_inside nrm aliases then Some orig_col else first_inside rest aliases)"

definition find_column :: "(string \<times> string) list \<Rightarrow> string list \<Rightarrow> string option" where
  "find_column df_cols_norm aliases =
     (case first_exact df_cols_norm aliases of
        Some orig_col \<Rightarrow> Some orig_col
      | None \<Rightarrow> first_inside df_cols_norm aliases)"

text \<open>\<open>{orig: normalize_col_name(orig) for orig in df.columns}\<close>\<close>

definition df_cols_norm :: "string list \<Rightarrow> (string \<times> string) list" where
  "df_cols_norm columns = map (\<lambda>orig. (orig, normalize_col_name orig)) columns"

text \<open>
  The normalization in the words of the specification, to be compared with
  \<open>normalize_col_name\<close>: every capital letter \<open>A\<close> to \<open>Z\<close> is replaced by its small
  letter (32 code points further), and then every character that is not a small letter
  or a digit is removed.
\<close>

definition normalize_spec :: "string \<Rightarrow> string" where
  "normalize_spec h =
     filter (\<lambda>c. c \<in> set ''abcdefghijklmnopqrstuvwxyz0123456789'')
       (map (\<lambda>c. if c \<in> set ''ABCDEFGHIJKLMNOPQRSTUVWXYZ''
                 then char_of (of_char c + (32::nat)) else c) h)"

text \<open>The resolution rule in the words of the specification: the first header, in
  header order, whose normalized form equals an alias; failing that, the first header
  whose normalized form contains an alias; failing that, nothing.\<close>

definition resolve_header :: "string list \<Rightarrow> string list \<Rightarrow> string option" where
  "resolve_header headers aliases =
     (case find (\<lambda>h. normalize_spec h \<in> set aliases) headers of
        Some h \<Rightarrow> Some h
      | None \<Rightarrow> find (\<lambda>h. list_ex (\<lambda>a. sublist a (normalize_spec h)) aliases) headers)"

text \<open>The alias table of the main loop.\<close>

definition aliases :: "(string \<times> string list) list" where
  "aliases =
     [(''school_name'', [''schoolname'', ''scoolname'', ''school'']),
      (''class'', [''class'', ''grade'', ''standard'']),
      (''division'', [''division'', ''section'']),
      (''roll_no'', [''rollno'', ''rollnumber'', ''roll_no'']),
      (''student_name'', [''nameofthestudent'', ''name'', ''studentname''])]"

section \<open>Grade parser\<close>

text \<open>\<open>s.isdigit()\<close>\<close>

definition str_isdigit :: "string \<Rightarrow> bool" where
  "str_isdigit s = (s \<noteq> [] \<and> list_all is_digit s)"

text \<open>\<open>int(s)\<close> for a non-empty string \<open>s\<close> of \<open>isdigit\<close> characters, the only strings
  the program passes to it: the value when all of them are decimal digits, a
  \<open>ValueError\<close> when one is a superscript digit.\<close>

definition int_of_digit_str :: "string \<Rightarrow> py_error + int" where
  "int_of_digit_str s =
     (if s \<noteq> [] \<and> list_all is_decimal s then Inr (int (nat_of_digits s)) else Inl ValueError)"

text \<open>\<open>re.search(r'(\d+)', s)\<close>: the first maximal run of decimal digits, if any.\<close>

definition first_digit_run :: "string \<Rightarrow> string option" where
  "first_digit_run s =
     (if list_ex is_decimal s
      then Some (takeWhile is_decimal (dropWhile (\<lambda>c. \<not> is_decimal c) s))
      else None)"

definition roman_map :: "(string \<times> int) list" where
  "roman_map =
     [(''i'', 1), (''ii'', 2), (''iii'', 3), (''iv'', 4), (''v'', 5),
      (''vi'', 6), (''vii'', 7), (''viii'', 8), (''ix'', 9), (''x'', 10),
      (''xi'', 11), (''xii'', 12)]"

definition words_map :: "(string \<times> int) list" where
  "words_map =
     [(''first'', 1), (''second'', 2), (''third'', 3), (''fourth'', 4), (''fifth'', 5),
      (''sixth'', 6), (''seventh'', 7), (''eighth'', 8), (''ninth'', 9), (''tenth'', 10),
      (''eleventh'', 11), (''twelfth'', 12)]"

text \<open>
  \<^verbatim>\<open>
  def parse_class_value(class_val):
      if pd.isna(class_val):
          return None
      s = str(class_val).strip().lower()
      if s.isdigit():
          return int(s)
      match = re.search(r'(\d+)', s)
      if match:
          return int(match.group(1))
      roman_map = {...}
      if s in roman_map:
          return roman_map[s]
      words_map = {...}
      if s in words_map:
          return words_map[s]
      return None
  \<close>
  The result \<open>None\<close> of the program is \<open>Inr None\<close>; an exception is \<open>Inl\<close>.
\<close>

definition parse_class_str :: "string \<Rightarrow> py_error + int option" where
  "parse_class_str s =
     (if str_isdigit s then and_then (int_of_digit_str s) (\<lambda>n. Inr (Some n))
      else case first_digit_run s of
             Some run \<Rightarrow> and_then (int_of_digit_str run) (\<lambda>n. Inr (Some n))
           | None \<Rightarrow>
               (case map_of roman_map s of
                  Some n \<Rightarrow> Inr (Some n)
                | None \<Rightarrow>
                    (case map_of words_map s of
                       Some n \<Rightarrow> Inr (Some n)
                     | None \<Rightarrow> Inr None)))"

definition parse_class_value :: "pyval \<Rightarrow> py_error + int option" where
  "parse_class_value class_val =
     (if py_isna class_val then Inr None
      else parse_class_str (lower (strip (py_str class_val))))"

section \<open>Template variant\<close>

datatype template_type = Master | Child

text \<open>
  \<^verbatim>\<open>
  if parsed_class is not None and parsed_class in [1, 2, 3]:
      omr_template = child_omr_template
      template_type = "child"
  else:
      omr_template = master_omr_template
      template_type = "master"
  \<close>
\<close>

definition select_template :: "int option \<Rightarrow> template_type" where
  "select_template parsed_class =
     (if parsed_class \<noteq> None \<and> the parsed_class \<in> set [1, 2, 3] then Child else Master)"

definition omr_template :: "template_type \<Rightarrow> string" where
  "omr_template t = (case t of Child \<Rightarrow> ''child_omr.jpg'' | Master \<Rightarrow> ''master_omr.jpg'')"

section \<open>Bubble layout\<close>

text \<open>
  The calibration constants, in centimetres. They are decimal literals of the program and
  are taken at their exact decimal values; the rounding of binary64 arithmetic on them is
  not modelled. \<open>cm\<close> is the length unit of the PDF library, \<open>72 / 2.54\<close> points.
\<close>

definition cm :: rat where
  "cm = 72 / 2.54"

definition MASTER_ROLL_X_CM :: "rat list" where
  "MASTER_ROLL_X_CM = [10.1, 11.5, 12.9]"

definition MASTER_BUBBLE_Y_TOP_CM :: "rat list" where
  "MASTER_BUBBLE_Y_TOP_CM = [22, 22, 22]"

definition MASTER_BUBBLE_SPACING_CM :: rat where
  "MASTER_BUBBLE_SPACING_CM = 0.62"

definition MASTER_BUBBLE_RADIUS_CM :: rat where
  "MASTER_BUBBLE_RADIUS_CM = 0.24"

definition SHIFT_X_CM :: rat where
  "SHIFT_X_CM = 6"

definition SHIFT_Y_CM :: rat where
  "SHIFT_Y_CM = - 0.3"

definition CHILD_ROLL_X_CM :: "rat list" where
  "CHILD_ROLL_X_CM = [9.9 + SHIFT_X_CM, 11.3 + SHIFT_X_CM, 12.6 + SHIFT_X_CM]"

definition CHILD_BUBBLE_Y_TOP_CM :: "rat list" where
  "CHILD_BUBBLE_Y_TOP_CM = [21.5 + SHIFT_Y_CM, 21.5 + SHIFT_Y_CM, 21.5 + SHIFT_Y_CM]"

definition CHILD_BUBBLE_SPACING_CM :: rat where
  "CHILD_BUBBLE_SPACING_CM = 0.61"

definition CHILD_BUBBLE_RADIUS_CM :: rat where
  "CHILD_BUBBLE_RADIUS_CM = 0.23"

text \<open>The fine-tune offsets are literals inside the two filling functions.\<close>

definition MASTER_FINE_TUNE_CM :: rat where
  "MASTER_FINE_TUNE_CM = 0.03"

definition CHILD_FINE_TUNE_CM :: rat where
  "CHILD_FINE_TUNE_CM = 0.2"

section \<open>Canvas\<close>

text \<open>The canvas is the sequence of the drawing calls made on it, oldest first. The
  placement arguments of the background image and of the information table are computed
  by the PDF library and are not kept.\<close>

datatype draw_op =
    SetFillColor string
  | Circle rat rat rat
  | SetFont string nat
  | DrawCentredString rat rat string
  | DrawImage string
  | DrawTable "string list"
  | ShowPage

type_synonym canvas = "draw_op list"

text \<open>\<open>xs[i]\<close> for a list and an index from \<open>enumerate\<close>: out of range raises.\<close>

definition index :: "'a list \<Rightarrow> nat \<Rightarrow> py_error + 'a" where
  "index xs i = (if i < length xs then Inr (xs ! i) else Inl IndexError)"

section \<open>Roll filling functions\<close>

text \<open>
  \<^verbatim>\<open>
  def fill_roll_bubbles_master(c, roll_no):
      roll_no = roll_no.zfill(3)
      for i, digit_char in enumerate(roll_no):
          if not digit_char.isdigit():
              continue
          digit = int(digit_char)
          x = (MASTER_ROLL_X_CM[i] * cm) / 2.2
          y = MASTER_BUBBLE_Y_TOP_CM[i] * cm - digit * MASTER_BUBBLE_SPACING_CM * cm - (2.6 * cm) + 0.03 * cm
          c.setFillColor(colors.black)
          c.circle(x, y, MASTER_BUBBLE_RADIUS_CM * cm, stroke=0, fill=1)
  \<close>
  \<open>fill_roll_bubbles_child\<close> is the same text with the child constants and \<open>0.2\<close> for
  \<open>0.03\<close>. The loop is written once, over the constants; \<open>i\<close> is the index that
  \<open>enumerate\<close> gives to the first character of the rest of the string.
\<close>

record layout =
  roll_x_cm :: "rat list"
  bubble_y_top_cm :: "rat list"
  bubble_spacing_cm :: rat
  bubble_radius_cm :: rat
  fine_tune_cm :: rat

definition master_layout :: layout where
  "master_layout =
     \<lparr>roll_x_cm = MASTER_ROLL_X_CM, bubble_y_top_cm = MASTER_BUBBLE_Y_TOP_CM,
      bubble_spacing_cm = MASTER_BUBBLE_SPACING_CM, bubble_radius_cm = MASTER_BUBBLE_RADIUS_CM,
      fine_tune_cm = MASTER_FINE_TUNE_CM\<rparr>"

definition child_layout :: layout where
  "child_layout =
     \<lparr>roll_x_cm = CHILD_ROLL_X_CM, bubble_y_top_cm = CHILD_BUBBLE_Y_TOP_CM,
      bubble_spacing_cm = CHILD_BUBBLE_SPACING_CM, bubble_radius_cm = CHILD_BUBBLE_RADIUS_CM,
      fine_tune_cm = CHILD_FINE_TUNE_CM\<rparr>"

definition bubble_x :: "rat \<Rightarrow> rat" where
  "bubble_x x_cm = (x_cm * cm) / 2.2"

definition bubble_y :: "layout \<Rightarrow> rat \<Rightarrow> int \<Rightarrow> rat" where
  "bubble_y L y_top_cm digit =
     y_top_cm * cm - of_int digit * bubble_spacing_cm L * cm - (2.6 * cm) + fine_tune_cm L * cm"

fun fill_loop :: "layout \<Rightarrow> nat \<Rightarrow> string \<Rightarrow> canvas \<Rightarrow> py_error + canvas" where
  "fill_loop L i [] c = Inr c"
| "fill_loop L i (digit_char # rest) c =
     (if \<not> is_digit digit_char then fill_loop L (Suc i) rest c
      else
        and_then (int_of_digit_str [digit_char]) (\<lambda>digit.
        and_then (index (roll_x_cm L) i) (\<lambda>x_cm.
        and_then (index (bubble_y_top_cm L) i) (\<lambda>y_top_cm.
          fill_loop L (Suc i) rest
            (c @ [SetFillColor ''black'',
                  Circle (bubble_x x_cm) (bubble_y L y_top_cm digit) (bubble_radius_cm L * cm)])))))"

definition fill_roll_bubbles_master :: "canvas \<Rightarrow> string \<Rightarrow> py_error + canvas" where
  "fill_roll_bubbles_master c roll_no = fill_loop master_layout 0 (zfill 3 roll_no) c"

definition fill_roll_bubbles_child :: "canvas \<Rightarrow> string \<Rightarrow> py_error + canvas" where
  "fill_roll_bubbles_child c roll_no = fill_loop child_layout 0 (zfill 3 roll_no) c"

text \<open>
  The bubbles of a roll string in the words of the specification: going left to right,
  the character at column \<open>i\<close> with digit value \<open>d\<close> gets a black circle at
  \<open>x = (column x in cm * cm) / 2.2\<close> and
  \<open>y = (column_y_top[i] - d * row_spacing - 2.6 + fine-tune offset) cm\<close>, with the
  variant's radius; any other character gets nothing.
\<close>

fun bubble_ops :: "layout \<Rightarrow> nat \<Rightarrow> string \<Rightarrow> draw_op list" where
  "bubble_ops L i [] = []"
| "bubble_ops L i (ch # rest) =
     (if is_decimal ch
      then [SetFillColor ''black'',
            Circle ((roll_x_cm L ! i * cm) / 2.2)
                   ((bubble_y_top_cm L ! i - of_nat (digit_val ch) * bubble_spacing_cm L - 2.6
                       + fine_tune_cm L) * cm)
                   (bubble_radius_cm L * cm)]
      else [])
     @ bubble_ops L (Suc i) rest"

definition is_circle :: "draw_op \<Rightarrow> bool" where
  "is_circle op = (case op of Circle x y r \<Rightarrow> True | _ \<Rightarrow> False)"

definition count_circles :: "canvas \<Rightarrow> nat" where
  "count_circles c = length (filter is_circle c)"

text \<open>
  \<^verbatim>\<open>
  def draw_roll_number_text(c, roll_no, template="master"):
      roll_no = roll_no.zfill(3)
      if template == "master":
          text_y = MASTER_BUBBLE_Y_TOP_CM[0] * cm - (2.1 * cm)
          x_positions = MASTER_ROLL_X_CM
      else:
          text_y = CHILD_BUBBLE_Y_TOP_CM[0] * cm - (2.0 * cm)
          x_positions = CHILD_ROLL_X_CM
      c.setFont("Helvetica-Bold", 14)
      c.setFillColor(colors.black)
      for i, digit_char in enumerate(roll_no):
          x = (x_positions[i] * cm) / 2.2
          c.drawCentredString(x, text_y, digit_char)
  \<close>
\<close>

fun text_loop :: "rat list \<Rightarrow> rat \<Rightarrow> nat \<Rightarrow> string \<Rightarrow> canvas \<Rightarrow> py_error + canvas" where
  "text_loop x_positions text_y i [] c = Inr c"
| "text_loop x_positions text_y i (digit_char # rest) c =
     and_then (index x_positions i) (\<lambda>x_cm.
       text_loop x_positions text_y (Suc i) rest
         (c @ [DrawCentredString ((x_cm * cm) / 2.2) text_y [digit_char]]))"

definition draw_roll_number_text :: "canvas \<Rightarrow> string \<Rightarrow> template_type \<Rightarrow> py_error + canvas" where
  "draw_roll_number_text c roll_no template =
     (let text_y = (case template of
                      Master \<Rightarrow> MASTER_BUBBLE_Y_TOP_CM ! 0 * cm - (2.1 * cm)
                    | Child \<Rightarrow> CHILD_BUBBLE_Y_TOP_CM ! 0 * cm - (2.0 * cm));
          x_positions = (case template of Master \<Rightarrow> MASTER_ROLL_X_CM | Child \<Rightarrow> CHILD_ROLL_X_CM)
      in text_loop x_positions text_y 0 (zfill 3 roll_no)
           (c @ [SetFont ''Helvetica-Bold'' 14, SetFillColor ''black'']))"

section \<open>Page composer and batch orchestrator\<close>

text \<open>
  A worksheet as the program reads it: its name, its column labels and its rows, each
  row holding one cell per column.
\<close>

record sheet =
  sheet_name :: string
  columns :: "string list"
  rows :: "pyval list list"

text \<open>\<open>row.get(label, "")\<close>\<close>

definition row_get :: "string list \<Rightarrow> pyval list \<Rightarrow> string \<Rightarrow> pyval" where
  "row_get cols row label =
     (case map_of (zip cols row) label of Some v \<Rightarrow> v | None \<Rightarrow> PStr [])"

text \<open>\<open>{canon: find_column(df_cols_norm, al_list) for canon, al_list in aliases.items()}\<close>\<close>

definition col_map :: "string list \<Rightarrow> (string \<times> string option) list" where
  "col_map cols = map (\<lambda>(canon, al_list). (canon, find_column (df_cols_norm cols) al_list)) aliases"

text \<open>\<open>row.get(col_map[canon], "") if col_map[canon] else ""\<close>: a label counts when it
  is neither \<open>None\<close> nor empty.\<close>

definition field_value :: "string list \<Rightarrow> pyval list \<Rightarrow> string \<Rightarrow> pyval" where
  "field_value cols row canon =
     (case map_of (col_map cols) canon of
        Some (Some label) \<Rightarrow> if label \<noteq> [] then row_get cols row label else PStr []
      | _ \<Rightarrow> PStr [])"

text \<open>The truth value of a cell, for \<open>x or ' '\<close>.\<close>

fun py_truthy :: "pyval \<Rightarrow> bool" where
  "py_truthy PNone = False"
| "py_truthy (PBool b) = b"
| "py_truthy (PInt n) = (n \<noteq> 0)"
| "py_truthy (PFloat f r) = (f \<noteq> Fin 0)"
| "py_truthy (PStr s) = (s \<noteq> [])"

text \<open>\<open>f"{x or ' '}"\<close>\<close>

definition or_blank :: "pyval \<Rightarrow> string" where
  "or_blank x = (if py_truthy x then py_str x else '' '')"

definition table_data :: "pyval \<Rightarrow> pyval \<Rightarrow> pyval \<Rightarrow> pyval \<Rightarrow> string list" where
  "table_data student_name school_name class_name division =
     [''Student Name: '' @ or_blank student_name,
      ''School: '' @ or_blank school_name,
      ''Class: '' @ or_blank class_name @ ''      Division: '' @ or_blank division,
      ''Question Paper Set: _____________'']"

text \<open>
  The body of the loop over the rows:
  \<^verbatim>\<open>
  for _, row in df.iterrows():
      student_name = row.get(col_map["student_name"], "") if col_map["student_name"] else ""
      ...
      roll_no_raw = row.get(col_map["roll_no"], "") if col_map["roll_no"] else ""
      roll_no = format_roll_value(roll_no_raw)
      parsed_class = parse_class_value(class_name)
      if parsed_class is not None and parsed_class in [1, 2, 3]: ... else: ...
      try:
          omr_img = ImageReader(omr_template)
          c.drawImage(omr_img, 0, 0, width=width, height=height, preserveAspectRatio=True)
      except Exception as e:
          st.error(...)
          st.stop()
      if template_type == "child":
          fill_roll_bubbles_child(c, roll_no)
      else:
          fill_roll_bubbles_master(c, roll_no)
      draw_roll_number_text(c, roll_no, template=template_type)
      data = [...]
      ...
      table.drawOn(c, x, y)
      c.showPage()
  \<close>
  \<open>readable t\<close> says whether the template image of variant \<open>t\<close> can be loaded and
  drawn; when it cannot, the program reports the error and stops.
\<close>

definition process_row :: "(template_type \<Rightarrow> bool) \<Rightarrow> string list \<Rightarrow> canvas \<Rightarrow> pyval list \<Rightarrow> py_error + canvas" where
  "process_row readable cols c row =
     (let student_name = field_value cols row ''student_name'';
          school_name = field_value cols row ''school_name'';
          class_name = field_value cols row ''class'';
          division = field_value cols row ''division'';
          roll_no_raw = field_value cols row ''roll_no''
      in and_then (format_roll_value roll_no_raw) (\<lambda>roll_no.
         and_then (parse_class_value class_name) (\<lambda>parsed_class.
           let template = select_template parsed_class
           in if \<not> readable template then Inl Stopped
              else
                and_then
                  (case template of
                     Child \<Rightarrow> fill_roll_bubbles_child (c @ [DrawImage (omr_template template)]) roll_no
                   | Master \<Rightarrow> fill_roll_bubbles_master (c @ [DrawImage (omr_template template)]) roll_no)
                  (\<lambda>c2.
                and_then (draw_roll_number_text c2 roll_no template) (\<lambda>c3.
                  Inr (c3 @ [DrawTable (table_data student_name school_name class_name division),
                             ShowPage]))))))"

fun rows_loop :: "(template_type \<Rightarrow> bool) \<Rightarrow> string list \<Rightarrow> pyval list list \<Rightarrow> canvas \<Rightarrow> py_error + canvas" where
  "rows_loop readable cols [] c = Inr c"
| "rows_loop readable cols (row # rest) c =
     and_then (process_row readable cols c row) (rows_loop readable cols rest)"

text \<open>The PDF of one worksheet is the canvas on which all its rows were drawn.\<close>

definition render_sheet :: "(template_type \<Rightarrow> bool) \<Rightarrow> sheet \<Rightarrow> py_error + canvas" where
  "render_sheet readable sh = rows_loop readable (columns sh) (rows sh) []"

text \<open>
  \<^verbatim>\<open>
  with zipfile.ZipFile(output_zip, "w") as zipf:
      for sheet_name in xls.sheet_names:
          df = pd.read_excel(uploaded_file, sheet_name=sheet_name, dtype=object)
          ...
          c.save()
          pdf_data = pdf_buffer.getvalue()
          pdf_buffer.close()
          pdf_filename = f"{safe_filename(sheet_name)}.pdf"
          zipf.writestr(pdf_filename, pdf_data)
  \<close>
  The archive is the list of its entries in the order of the \<open>writestr\<close> calls; a name
  that is already present is written again as a further entry.
\<close>

type_synonym archive = "(string \<times> canvas) list"

fun sheets_loop :: "(template_type \<Rightarrow> bool) \<Rightarrow> sheet list \<Rightarrow> archive \<Rightarrow> py_error + archive" where
  "sheets_loop readable [] zipf = Inr zipf"
| "sheets_loop readable (sh # rest) zipf =
     and_then (render_sheet readable sh) (\<lambda>pdf_data.
       sheets_loop readable rest (zipf @ [(safe_filename (sheet_name sh) @ ''.pdf'', pdf_data)]))"

text \<open>
  The run on an uploaded workbook, given as the list of its worksheets in file order:
  \<^verbatim>\<open>
  if not Path(child_omr_template).exists() or not Path(master_omr_template).exists():
      st.error(...)
      st.stop()
  \<close>
  \<open>present t\<close> says whether the template file of variant \<open>t\<close> exists.
\<close>

definition generate :: "(template_type \<Rightarrow> bool) \<Rightarrow> (template_type \<Rightarrow> bool) \<Rightarrow> sheet list \<Rightarrow> py_error + archive" where
  "generate present readable sheets =
     (if \<not> present Child \<or> \<not> present Master then Inl Stopped
      else sheets_loop readable sheets [])"

section \<open>Properties of the filename sanitizer\<close>

lemma set_sub_space_runs: "set (sub_space_runs s) \<subseteq> insert (CHR ''_'') (set s)"
proof (induction s rule: sub_space_runs.induct)
  case 1
  show ?case by simp
next
  case (2 c cs)
  show ?case
  proof (cases "is_space c")
    case True
    have "set (dropWhile is_space cs) \<subseteq> set cs"
      by (auto dest: set_dropWhileD)
    with 2(1) [OF True] True show ?thesis by auto
  next
    case False
    with 2(2) [OF False] show ?thesis by auto
  qed
qed

lemma underscore_not_space: "\<not> is_space (CHR ''_'')"
  by (simp add: is_space_def code_def)

lemma sub_space_runs_no_space: "c \<in> set (sub_space_runs s) \<Longrightarrow> \<not> is_space c"
proof (induction s rule: sub_space_runs.induct)
  case 1
  then show ?case by simp
next
  case (2 d ds)
  then show ?case
    by (cases "is_space d") (auto simp: underscore_not_space)
qed

lemma set_sub_illegal: "set (sub_illegal s) \<inter> illegal_chars = {}"
  by (auto simp: sub_illegal_def illegal_chars_def)

lemma underscore_legal: "CHR ''_'' \<notin> illegal_chars"
  by (simp add: illegal_chars_def)

text \<open>What collapsing a run means: a string without whitespace is left as it is, and a
  maximal run of whitespace between two pieces becomes one underscore.\<close>

lemma sub_space_runs_id: "\<not> list_ex is_space s \<Longrightarrow> sub_space_runs s = s"
  by (induction s) auto

lemma sub_space_runs_collapse:
  assumes "ws \<noteq> []" "list_all is_space ws" "\<not> list_ex is_space xs"
    and "case ys of [] \<Rightarrow> True | y # _ \<Rightarrow> \<not> is_space y"
  shows "sub_space_runs (xs @ ws @ ys) = xs @ CHR ''_'' # sub_space_runs ys"
proof -
  have dw: "dropWhile is_space (ws @ ys) = ys"
    using assms(2,4) by (induction ws) (auto split: list.splits)
  obtain w ws' where ws: "ws = w # ws'" using assms(1) by (cases ws) auto
  have dw': "dropWhile is_space (ws' @ ys) = ys"
    using dw assms(2) by (simp add: ws)
  have "sub_space_runs (ws @ ys) = CHR ''_'' # sub_space_runs ys"
    using assms(2) dw' by (simp add: ws)
  then show ?thesis using assms(3) by (induction xs) auto
qed

lemma char_mem_iff: "c \<in> A \<longleftrightarrow> (of_char c :: nat) \<in> of_char ` A"
  by (auto simp: image_iff)

lemma is_space_iff: "is_space c \<longleftrightarrow> c \<in> whitespace_chars"
  by (subst char_mem_iff) (simp add: is_space_def code_def whitespace_chars_def)

lemma collapse_runs_in_run: "collapse_runs True cs = collapse_runs False (dropWhile is_space cs)"
  by (induction cs) (simp_all add: is_space_iff)

lemma sub_space_runs_spec: "sub_space_runs s = collapse_runs False s"
proof (induction s rule: sub_space_runs.induct)
  case 1
  show ?case by simp
next
  case (2 c cs)
  show ?case
  proof (cases "is_space c")
    case True
    with 2(1) [OF True] show ?thesis
      by (simp add: collapse_runs_in_run is_space_iff [symmetric])
  next
    case False
    with 2(2) [OF False] show ?thesis
      by (simp add: is_space_iff [symmetric])
  qed
qed

lemma illegal_chars_spec: "illegal_chars = set spec_illegal"
  by (simp add: illegal_chars_def spec_illegal_def)

lemma safe_filename_spec: "safe_filename s = sanitize_spec (strip s)"
  by (simp add: safe_filename_def sanitize_spec_def sub_space_runs_spec sub_illegal_def
      illegal_chars_spec)

text \<open>\<open>strip\<close> removes a stretch of whitespace at each end and nothing else, and what it
  leaves neither starts nor ends with whitespace.\<close>

lemma strip_decomposition:
  "\<exists>pre suf. s = pre @ strip s @ suf \<and> set pre \<subseteq> whitespace_chars \<and> set suf \<subseteq> whitespace_chars"
proof -
  define t where "t = dropWhile is_space s"
  have a: "s = takeWhile is_space s @ t"
    by (simp add: t_def)
  have "rev (dropWhile is_space (rev t)) @ rev (takeWhile is_space (rev t))
      = rev (takeWhile is_space (rev t) @ dropWhile is_space (rev t))"
    by (simp only: rev_append)
  also have "\<dots> = rev (rev t)"
    by (simp only: takeWhile_dropWhile_id)
  also have "\<dots> = t"
    by simp
  finally have b: "t = strip s @ rev (takeWhile is_space (rev t))"
    by (simp only: strip_def t_def)
  have c: "set (takeWhile is_space s) \<subseteq> whitespace_chars"
    by (auto simp: is_space_iff [symmetric] dest: set_takeWhileD)
  have d: "set (rev (takeWhile is_space (rev t))) \<subseteq> whitespace_chars"
    by (auto simp: is_space_iff [symmetric] dest: set_takeWhileD)
  from a b have "s = takeWhile is_space s @ strip s @ rev (takeWhile is_space (rev t))"
    by simp
  with c d show ?thesis by blast
qed

lemma last_dropWhile: "dropWhile P xs \<noteq> [] \<Longrightarrow> last (dropWhile P xs) = last xs"
  by (induction xs) (auto split: if_splits)

lemma strip_ends:
  "strip s = [] \<or> (hd (strip s) \<notin> whitespace_chars \<and> last (strip s) \<notin> whitespace_chars)"
proof (cases "strip s = []")
  case True
  then show ?thesis by simp
next
  case False
  define t where "t = dropWhile is_space s"
  define u where "u = dropWhile is_space (rev t)"
  have st: "strip s = rev u" by (simp add: strip_def t_def u_def)
  with False have u: "u \<noteq> []" by simp
  then have t: "t \<noteq> []" by (auto simp: u_def)
  from u have "\<not> is_space (hd u)" unfolding u_def by (rule hd_dropWhile)
  then have l: "\<not> is_space (last (strip s))" using u by (simp add: st last_rev)
  from u have "last u = last (rev t)" unfolding u_def by (rule last_dropWhile)
  then have "hd (strip s) = hd t" using u t by (simp add: st hd_rev last_rev)
  moreover from t have "\<not> is_space (hd t)" unfolding t_def by (rule hd_dropWhile)
  ultimately have "\<not> is_space (hd (strip s))" by simp
  with l show ?thesis by (simp add: is_space_iff)
qed

text \<open>
  Claim C8, as stated, fails: whitespace at the two ends of the name is removed, not
  collapsed to an underscore. For \<open>" a b "\<close> the program gives \<open>"a_b"\<close>, where replacing,
  collapsing and cutting alone give \<open>"_a_b_"\<close>.
\<close>

theorem safe_filename_strips_ends:
  "safe_filename '' a b '' = ''a_b'' \<and> sanitize_spec '' a b '' = ''_a_b_''"
  by code_simp

text \<open>
  Claim C8, amended. For every string \<open>s\<close>, the sanitized name is what the specification
  describes (each of the characters \<open>\ / * ? : " < > |\<close> replaced by an underscore, each
  whitespace run collapsed to a single underscore, the result cut at 200 characters)
  applied to \<open>s\<close> without its leading and trailing whitespace; so it contains none of
  those characters and no whitespace, has at most 200 characters, and \<open>"My/Sheet:1"\<close>
  becomes \<open>"My_Sheet_1"\<close>.
\<close>

theorem safe_filename_sanitizes:
  "safe_filename s = sanitize_spec (strip s)
   \<and> (\<exists>pre suf. s = pre @ strip s @ suf \<and> set pre \<subseteq> whitespace_chars \<and> set suf \<subseteq> whitespace_chars)
   \<and> (strip s = [] \<or> (hd (strip s) \<notin> whitespace_chars \<and> last (strip s) \<notin> whitespace_chars))
   \<and> illegal_chars = set spec_illegal
   \<and> Collect is_space = whitespace_chars
   \<and> set (safe_filename s) \<inter> (illegal_chars \<union> Collect is_space) = {}
   \<and> length (safe_filename s) \<le> 200
   \<and> safe_filename ''My/Sheet:1'' = ''My_Sheet_1''"
proof -
  have sub: "set (safe_filename s) \<subseteq> set (sub_space_runs (sub_illegal (strip s)))"
    by (auto simp: safe_filename_def dest: in_set_takeD)
  have "set (sub_space_runs (sub_illegal (strip s))) \<inter> illegal_chars = {}"
    using set_sub_space_runs [of "sub_illegal (strip s)"] set_sub_illegal [of "strip s"]
      underscore_legal by auto
  moreover have "set (sub_space_runs (sub_illegal (strip s))) \<inter> Collect is_space = {}"
    using sub_space_runs_no_space by auto
  ultimately have a: "set (safe_filename s) \<inter> (illegal_chars \<union> Collect is_space) = {}"
    using sub by auto
  have b: "length (safe_filename s) \<le> 200"
    by (simp add: safe_filename_def)
  have c: "safe_filename ''My/Sheet:1'' = ''My_Sheet_1''"
    by code_simp
  have d: "Collect is_space = whitespace_chars"
    by (auto simp: is_space_iff)
  from a b c d safe_filename_spec [of s] strip_decomposition [of s] strip_ends [of s]
    illegal_chars_spec
  show ?thesis by blast
qed

section \<open>Properties of the column resolver\<close>

lemma any_alias_equal_iff: "any_alias_equal n as \<longleftrightarrow> n \<in> set as"
  by (induction as) auto

lemma prefix_take_iff: "prefix a s \<longleftrightarrow> take (length a) s = a"
proof
  assume "prefix a s"
  then obtain zs where "s = a @ zs" by (auto simp: prefix_def)
  then show "take (length a) s = a" by simp
next
  assume "take (length a) s = a"
  then have "s = a @ drop (length a) s" by (metis append_take_drop_id)
  then show "prefix a s" by (metis prefixI)
qed

lemma str_contains_iff: "str_contains s a \<longleftrightarrow> sublist a s"
proof (induction s)
  case Nil
  show ?case by simp
next
  case (Cons c cs)
  have "str_contains (c # cs) a \<longleftrightarrow> prefix a (c # cs) \<or> str_contains cs a"
    unfolding prefix_take_iff by simp
  also have "\<dots> \<longleftrightarrow> prefix a (c # cs) \<or> sublist a cs"
    using Cons by simp
  also have "\<dots> \<longleftrightarrow> sublist a (c # cs)"
    by (rule sublist_Cons_right [symmetric])
  finally show ?case .
qed

lemma any_alias_inside_iff: "any_alias_inside n as \<longleftrightarrow> list_ex (\<lambda>a. sublist a n) as"
  by (induction as) (auto simp: str_contains_iff)

text \<open>The normalizer of the program is the normalization of the specification: the
  stripping of whitespace and the lower-casing of accented capitals change nothing,
  since such characters are removed anyway.\<close>

lemma lower_alnum_iff: "is_lower_alnum c \<longleftrightarrow> c \<in> set ''abcdefghijklmnopqrstuvwxyz0123456789''"
proof -
  have "(of_char c :: nat) \<in> of_char ` set ''abcdefghijklmnopqrstuvwxyz0123456789''
      \<longleftrightarrow> (97 \<le> (of_char c :: nat) \<and> (of_char c :: nat) \<le> 122) \<or> (48 \<le> (of_char c :: nat) \<and> (of_char c :: nat) \<le> 57)"
    by simp presburger
  moreover have "is_lower_alnum c \<longleftrightarrow> (97 \<le> (of_char c :: nat) \<and> (of_char c :: nat) \<le> 122) \<or> (48 \<le> (of_char c :: nat) \<and> (of_char c :: nat) \<le> 57)"
    by (simp add: is_lower_alnum_def code_def)
  moreover note char_mem_iff [of c "set ''abcdefghijklmnopqrstuvwxyz0123456789''"]
  ultimately show ?thesis by blast
qed

lemma upper_iff: "c \<in> set ''ABCDEFGHIJKLMNOPQRSTUVWXYZ'' \<longleftrightarrow> 65 \<le> (of_char c :: nat) \<and> (of_char c :: nat) \<le> 90"
proof -
  have "(of_char c :: nat) \<in> of_char ` set ''ABCDEFGHIJKLMNOPQRSTUVWXYZ''
      \<longleftrightarrow> 65 \<le> (of_char c :: nat) \<and> (of_char c :: nat) \<le> 90"
    by simp presburger
  with char_mem_iff [of c "set ''ABCDEFGHIJKLMNOPQRSTUVWXYZ''"] show ?thesis by blast
qed

lemma filter_strip: "filter is_lower_alnum (strip s) = filter is_lower_alnum s"
proof -
  have ns: "is_space c \<Longrightarrow> \<not> is_lower_alnum c" for c
    by (auto simp: is_space_def is_lower_alnum_def)
  have dw: "filter is_lower_alnum (dropWhile is_space t) = filter is_lower_alnum t" for t
    by (induction t) (auto simp: ns)
  have fr: "filter is_lower_alnum (rev t) = rev (filter is_lower_alnum t)" for t
    by (rule rev_filter [symmetric])
  have "filter is_lower_alnum (strip s)
      = rev (filter is_lower_alnum (dropWhile is_space (rev (dropWhile is_space s))))"
    unfolding strip_def by (rule fr)
  also have "\<dots> = rev (filter is_lower_alnum (rev (dropWhile is_space s)))"
    by (simp only: dw)
  also have "\<dots> = filter is_lower_alnum (dropWhile is_space s)"
    by (simp only: fr rev_rev_ident)
  also have "\<dots> = filter is_lower_alnum s"
    by (rule dw)
  finally show ?thesis .
qed

lemma to_lower_alnum:
  "is_lower_alnum (to_lower c) \<longleftrightarrow>
     is_lower_alnum (if c \<in> set ''ABCDEFGHIJKLMNOPQRSTUVWXYZ'' then char_of (of_char c + (32::nat)) else c)"
  "is_lower_alnum (to_lower c) \<Longrightarrow>
     to_lower c = (if c \<in> set ''ABCDEFGHIJKLMNOPQRSTUVWXYZ'' then char_of (of_char c + (32::nat)) else c)"
  unfolding upper_iff by (auto simp: to_lower_def is_lower_alnum_def code_def)

lemma normalize_col_name_lower: "normalize_col_name h = filter is_lower_alnum (lower h)"
proof (cases "h = []")
  case True
  then show ?thesis by (simp add: normalize_col_name_def lower_def)
next
  case False
  then show ?thesis
    by (simp only: normalize_col_name_def if_True filter_strip simp_thms)
qed

lemma normalize_col_name_spec: "normalize_col_name h = normalize_spec h"
proof -
  define g :: "char \<Rightarrow> char" where
    "g = (\<lambda>c. if c \<in> set ''ABCDEFGHIJKLMNOPQRSTUVWXYZ'' then char_of (of_char c + (32::nat)) else c)"
  have g1: "is_lower_alnum (to_lower c) \<longleftrightarrow> is_lower_alnum (g c)" for c
    unfolding g_def by (rule to_lower_alnum(1))
  have g2: "to_lower c = g c" if "is_lower_alnum (to_lower c)" for c
    unfolding g_def using that by (rule to_lower_alnum(2))
  have low: "filter is_lower_alnum (map to_lower t) = filter is_lower_alnum (map g t)" for t
  proof (induction t)
    case Nil
    show ?case by simp
  next
    case (Cons c t)
    show ?case
    proof (cases "is_lower_alnum (to_lower c)")
      case True
      with g1 [of c] g2 [of c] Cons show ?thesis by simp
    next
      case False
      with g1 [of c] Cons show ?thesis by simp
    qed
  qed
  have P: "is_lower_alnum = (\<lambda>c. c \<in> set ''abcdefghijklmnopqrstuvwxyz0123456789'')"
    by (rule ext) (rule lower_alnum_iff)
  have spec: "normalize_spec h = filter is_lower_alnum (map g h)"
    unfolding normalize_spec_def g_def P ..
  from low [of h] spec show ?thesis
    by (simp add: normalize_col_name_lower lower_def)
qed

lemma first_exact_find:
  "first_exact (df_cols_norm hs) as = find (\<lambda>h. normalize_col_name h \<in> set as) hs"
  by (induction hs) (auto simp: df_cols_norm_def any_alias_equal_iff)

lemma first_inside_find:
  "first_inside (df_cols_norm hs) as = find (\<lambda>h. list_ex (\<lambda>a. sublist a (normalize_col_name h)) as) hs"
  by (induction hs) (auto simp: df_cols_norm_def any_alias_inside_iff)

text \<open>
  Claim C7. Every header is normalized by lower-casing and by removing every character
  that is not a small letter or a digit; for every list of headers and every alias list,
  \<open>find_column\<close> on the normalized headers returns the first header whose normalized form
  equals an alias, else the first header whose normalized form contains an alias, else
  nothing; and the headers \<open>"Roll No."\<close>, \<open>"ROLLNO"\<close> and \<open>"roll_no"\<close> all normalize to
  \<open>"rollno"\<close> and are found by the exact pass for the roll number field.
\<close>

theorem find_column_resolves:
  "find_column (df_cols_norm headers) als = resolve_header headers als
   \<and> df_cols_norm headers = map (\<lambda>h. (h, normalize_spec h)) headers
   \<and> normalize_col_name h = normalize_spec h
   \<and> normalize_col_name h = filter is_lower_alnum (lower h)
   \<and> map normalize_col_name [''Roll No.'', ''ROLLNO'', ''roll_no''] = [''rollno'', ''rollno'', ''rollno'']
   \<and> map (\<lambda>h. first_exact (df_cols_norm [h]) [''rollno'', ''rollnumber'', ''roll_no''])
        [''Roll No.'', ''ROLLNO'', ''roll_no'']
      = [Some ''Roll No.'', Some ''ROLLNO'', Some ''roll_no'']
   \<and> map_of aliases ''roll_no'' = Some [''rollno'', ''rollnumber'', ''roll_no'']"
proof -
  have a: "find_column (df_cols_norm headers) als = resolve_header headers als"
    by (simp add: find_column_def resolve_header_def first_exact_find first_inside_find
        normalize_col_name_spec split: option.splits)
  have e: "df_cols_norm headers = map (\<lambda>h. (h, normalize_spec h)) headers"
    by (simp add: df_cols_norm_def normalize_col_name_spec)
  have b: "map normalize_col_name [''Roll No.'', ''ROLLNO'', ''roll_no''] = [''rollno'', ''rollno'', ''rollno'']"
    by code_simp
  have c: "map (\<lambda>h. first_exact (df_cols_norm [h]) [''rollno'', ''rollnumber'', ''roll_no''])
        [''Roll No.'', ''ROLLNO'', ''roll_no'']
      = [Some ''Roll No.'', Some ''ROLLNO'', Some ''roll_no'']"
    by code_simp
  have d: "map_of aliases ''roll_no'' = Some [''rollno'', ''rollnumber'', ''roll_no'']"
    by (simp add: aliases_def)
  from a b c d e normalize_col_name_spec [of h] normalize_col_name_lower [of h]
  show ?thesis by simp
qed

section \<open>Properties of the layout constants\<close>

text \<open>
  Claim C2, as stated, fails: the child column positions are not the master ones plus
  6 cm, and the child y-origin is not the master one minus 0.3 cm.
\<close>

theorem child_not_shifted_master:
  "CHILD_ROLL_X_CM ! 0 \<noteq> MASTER_ROLL_X_CM ! 0 + 6
   \<and> CHILD_BUBBLE_Y_TOP_CM ! 0 \<noteq> MASTER_BUBBLE_Y_TOP_CM ! 0 + (- 0.3)"
  by (simp add: CHILD_ROLL_X_CM_def MASTER_ROLL_X_CM_def CHILD_BUBBLE_Y_TOP_CM_def
      MASTER_BUBBLE_Y_TOP_CM_def SHIFT_X_CM_def SHIFT_Y_CM_def)

text \<open>
  Claim C2, amended. The child constants are the child's own base values
  (9.9, 11.3, 12.6 and 21.5) shifted by +6 cm horizontally and -0.3 cm vertically; from
  the master constants they differ by 5.8, 5.8 and 5.7 cm in the three column positions
  and by -0.8 cm in the y-origin; spacing, radius and fine-tune offset are separate
  values per variant (0.62 and 0.61, 0.24 and 0.23, 0.03 and 0.2).
\<close>

theorem child_layout_constants:
  "CHILD_ROLL_X_CM = map (\<lambda>b. b + 6) [9.9, 11.3, 12.6]
   \<and> CHILD_BUBBLE_Y_TOP_CM = map (\<lambda>b. b + (- 0.3)) [21.5, 21.5, 21.5]
   \<and> map2 (-) CHILD_ROLL_X_CM MASTER_ROLL_X_CM = [5.8, 5.8, 5.7]
   \<and> map2 (-) CHILD_BUBBLE_Y_TOP_CM MASTER_BUBBLE_Y_TOP_CM = [- 0.8, - 0.8, - 0.8]
   \<and> (bubble_spacing_cm master_layout, bubble_spacing_cm child_layout) = (0.62, 0.61)
   \<and> (bubble_radius_cm master_layout, bubble_radius_cm child_layout) = (0.24, 0.23)
   \<and> (fine_tune_cm master_layout, fine_tune_cm child_layout) = (0.03, 0.2)"
  by (simp add: CHILD_ROLL_X_CM_def MASTER_ROLL_X_CM_def CHILD_BUBBLE_Y_TOP_CM_def
      MASTER_BUBBLE_Y_TOP_CM_def SHIFT_X_CM_def SHIFT_Y_CM_def master_layout_def child_layout_def
      MASTER_BUBBLE_SPACING_CM_def CHILD_BUBBLE_SPACING_CM_def MASTER_BUBBLE_RADIUS_CM_def
      CHILD_BUBBLE_RADIUS_CM_def MASTER_FINE_TUNE_CM_def CHILD_FINE_TUNE_CM_def)

section \<open>Properties of the drawing functions\<close>

lemma and_then_Inr_iff: "and_then m f = Inr y \<longleftrightarrow> (\<exists>x. m = Inr x \<and> f x = Inr y)"
  by (cases m) auto

lemma and_then_Inl_iff: "and_then m f = Inl e \<longleftrightarrow> m = Inl e \<or> (\<exists>x. m = Inr x \<and> f x = Inl e)"
  by (cases m) auto

lemma fill_loop_appends: "fill_loop L i s c = Inr c' \<Longrightarrow> prefix c c'"
proof (induction s arbitrary: i c)
  case Nil
  then show ?case by simp
next
  case (Cons ch rest)
  show ?case
  proof (cases "is_digit ch")
    case False
    with Cons show ?thesis by simp
  next
    case True
    with Cons.prems obtain ops where "fill_loop L (Suc i) rest (c @ ops) = Inr c'"
      by (auto simp: and_then_Inr_iff)
    then have "prefix (c @ ops) c'" by (rule Cons.IH)
    then show ?thesis by (metis append_prefixD)
  qed
qed

lemma text_loop_appends: "text_loop xs y i s c = Inr c' \<Longrightarrow> prefix c c'"
proof (induction s arbitrary: i c)
  case Nil
  then show ?case by simp
next
  case (Cons ch rest)
  from Cons.prems obtain ops where "text_loop xs y (Suc i) rest (c @ ops) = Inr c'"
    by (auto simp: and_then_Inr_iff)
  then have "prefix (c @ ops) c'" by (rule Cons.IH)
  then show ?case by (metis append_prefixD)
qed

lemma draw_roll_number_text_appends: "draw_roll_number_text c r t = Inr c' \<Longrightarrow> prefix c c'"
  unfolding draw_roll_number_text_def Let_def
  by (metis append_prefixD text_loop_appends)

section \<open>Properties of the template selection\<close>

lemma select_template_Child_iff:
  "select_template g = Child \<longleftrightarrow> g = Some 1 \<or> g = Some 2 \<or> g = Some 3"
  by (cases g) (auto simp: select_template_def)

lemma process_row_draws_selected:
  assumes "process_row readable cols c row = Inr c'"
  shows "\<exists>g. parse_class_value (field_value cols row ''class'') = Inr g
           \<and> prefix (c @ [DrawImage (omr_template (select_template g))]) c'"
proof -
  from assms obtain roll_no g c2 c3 where
    g: "parse_class_value (field_value cols row ''class'') = Inr g"
    and fill: "(case select_template g of
           Child \<Rightarrow> fill_roll_bubbles_child (c @ [DrawImage (omr_template (select_template g))]) roll_no
         | Master \<Rightarrow> fill_roll_bubbles_master (c @ [DrawImage (omr_template (select_template g))]) roll_no) = Inr c2"
    and dtext: "draw_roll_number_text c2 roll_no (select_template g) = Inr c3"
    and c': "c' = c3 @ [DrawTable (table_data (field_value cols row ''student_name'')
               (field_value cols row ''school_name'') (field_value cols row ''class'')
               (field_value cols row ''division'')), ShowPage]"
    by (auto simp: process_row_def Let_def and_then_Inr_iff split: if_splits)
  have "prefix (c @ [DrawImage (omr_template (select_template g))]) c2"
    using fill
    by (cases "select_template g")
       (auto simp: fill_roll_bubbles_master_def fill_roll_bubbles_child_def dest: fill_loop_appends)
  moreover have "prefix c2 c3" using dtext by (rule draw_roll_number_text_appends)
  moreover have "prefix c3 c'" by (simp add: c')
  ultimately have "prefix (c @ [DrawImage (omr_template (select_template g))]) c'"
    by (meson prefix_order.trans)
  with g show ?thesis by blast
qed

text \<open>
  Claim C5. The child variant is selected exactly when the parsed grade is 1, 2 or 3, and
  the master variant in every other case, an unknown grade included; and a row that is
  processed gets the background image of the variant selected for its parsed grade.
\<close>

theorem child_template_iff_grade_1_2_3:
  "(select_template g = Child \<longleftrightarrow> g = Some 1 \<or> g = Some 2 \<or> g = Some 3)
   \<and> (select_template g = Master \<longleftrightarrow> \<not> (g = Some 1 \<or> g = Some 2 \<or> g = Some 3))
   \<and> select_template None = Master
   \<and> omr_template Child \<noteq> omr_template Master
   \<and> (process_row readable cols c row = Inr c' \<longrightarrow>
        (\<exists>p. parse_class_value (field_value cols row ''class'') = Inr p
           \<and> prefix (c @ [DrawImage (omr_template (select_template p))]) c'))"
proof -
  have a: "select_template g = Child \<longleftrightarrow> g = Some 1 \<or> g = Some 2 \<or> g = Some 3"
    by (rule select_template_Child_iff)
  have b: "select_template g = Master \<longleftrightarrow> \<not> (g = Some 1 \<or> g = Some 2 \<or> g = Some 3)"
    using a by (cases "select_template g") auto
  have c: "select_template None = Master"
    by (simp add: select_template_def)
  have d: "omr_template Child \<noteq> omr_template Master"
    by (simp add: omr_template_def)
  from a b c d process_row_draws_selected show ?thesis by blast
qed

lemma process_row_example:
  "\<not> isl (process_row (\<lambda>t. True) [''Class'', ''Roll''] [] [PStr ''II'', PInt 7])"
  by code_simp

theorem child_template_iff_grade_1_2_3_witness:
  "select_template (Some 2) = Child
   \<and> (\<exists>c'. process_row (\<lambda>t. True) [''Class'', ''Roll''] [] [PStr ''II'', PInt 7] = Inr c'
        \<and> (\<exists>p. parse_class_value (field_value [''Class'', ''Roll''] [PStr ''II'', PInt 7] ''class'') = Inr p
              \<and> prefix ([] @ [DrawImage (omr_template (select_template p))]) c'))"
proof -
  obtain c' where h: "process_row (\<lambda>t. True) [''Class'', ''Roll''] [] [PStr ''II'', PInt 7] = Inr c'"
    using process_row_example by (cases "process_row (\<lambda>t. True) [''Class'', ''Roll''] [] [PStr ''II'', PInt 7]") auto
  from child_template_iff_grade_1_2_3 [of "Some 2" "\<lambda>t. True" "[''Class'', ''Roll'']" "[]" "[PStr ''II'', PInt 7]" c'] h
  show ?thesis by blast
qed

section \<open>Properties of the grade parser\<close>

lemma first_digit_run_decimal:
  assumes "first_digit_run s = Some run"
  shows "run \<noteq> [] \<and> list_all is_decimal run"
proof -
  from assms have ex: "list_ex is_decimal s"
    and run: "run = takeWhile is_decimal (dropWhile (\<lambda>c. \<not> is_decimal c) s)"
    by (auto simp: first_digit_run_def split: if_splits)
  from ex have ne: "dropWhile (\<lambda>c. \<not> is_decimal c) s \<noteq> []"
    by (auto simp: list_ex_iff)
  then have "is_decimal (hd (dropWhile (\<lambda>c. \<not> is_decimal c) s))"
    using hd_dropWhile [of "\<lambda>c. \<not> is_decimal c" s] by simp
  with ne have "run \<noteq> []"
    unfolding run by (cases "dropWhile (\<lambda>c. \<not> is_decimal c) s") auto
  moreover have "list_all is_decimal run"
    unfolding run by (auto simp: list_all_iff dest: set_takeWhileD)
  ultimately show ?thesis by simp
qed

lemma first_digit_run_all_decimal:
  "s \<noteq> [] \<Longrightarrow> list_all is_decimal s \<Longrightarrow> first_digit_run s = Some s"
  by (cases s) (auto simp: first_digit_run_def list_all_iff list_ex_iff takeWhile_eq_all_conv)

text \<open>
  The priority chain of the grade parser, for a cell that is not missing and whose
  stripped, lower-cased text \<open>s\<close> has no superscript digit: the value of the first run
  of decimal digits if there is one (the whole of \<open>s\<close> when \<open>s\<close> is all digits), else the
  Roman numeral, else the ordinal word, else unknown.
\<close>

lemma parse_class_str_chain:
  assumes "list_all (\<lambda>c. is_digit c = is_decimal c) s"
  shows "parse_class_str s =
     Inr (case first_digit_run s of
            Some run \<Rightarrow> Some (int (nat_of_digits run))
          | None \<Rightarrow> (case map_of roman_map s of Some n \<Rightarrow> Some n | None \<Rightarrow> map_of words_map s))"
proof (cases "str_isdigit s")
  case True
  with assms have "s \<noteq> []" "list_all is_decimal s"
    by (auto simp: str_isdigit_def list_all_iff)
  then show ?thesis
    using True by (simp add: parse_class_str_def int_of_digit_str_def first_digit_run_all_decimal)
next
  case False
  show ?thesis
  proof (cases "first_digit_run s")
    case None
    with False show ?thesis
      by (simp add: parse_class_str_def split: option.splits)
  next
    case (Some run)
    with first_digit_run_decimal [OF Some] False show ?thesis
      by (simp add: parse_class_str_def int_of_digit_str_def)
  qed
qed

lemma parse_class_value_missing: "py_isna v \<Longrightarrow> parse_class_value v = Inr None"
  by (simp add: parse_class_value_def)

lemma parse_class_value_chain:
  assumes "\<not> py_isna v" and "list_all (\<lambda>c. is_digit c = is_decimal c) (lower (strip (py_str v)))"
  shows "parse_class_value v =
     Inr (case first_digit_run (lower (strip (py_str v))) of
            Some run \<Rightarrow> Some (int (nat_of_digits run))
          | None \<Rightarrow> (case map_of roman_map (lower (strip (py_str v))) of
                       Some n \<Rightarrow> Some n
                     | None \<Rightarrow> map_of words_map (lower (strip (py_str v)))))"
  using assms by (simp add: parse_class_value_def parse_class_str_chain)

lemma parse_class_value_examples:
  "parse_class_value (PStr ''Class 7B'') = Inr (Some 7)"
  "parse_class_value (PStr ''VII'') = Inr (Some 7)"
  "parse_class_value (PStr ''seventh'') = Inr (Some 7)"
  "parse_class_value (PStr '''') = Inr None"
  "parse_class_value (PStr ''Grade 4'') = Inr (Some 4)"
  "parse_class_value (PInt 12) = Inr (Some 12)"
  by code_simp+

text \<open>
  Claim C4 fails on the code at a class cell made of the digit \<open>7\<close> and a superscript
  two: the text passes \<open>isdigit\<close>, so it is given to \<open>int\<close> as a whole, which raises
  \<open>ValueError\<close>, although its first run of decimal digits is \<open>7\<close>.
\<close>

theorem parse_class_value_superscript_raises:
  "parse_class_value (PStr [CHR ''7'', CHR 0xB2]) = Inl ValueError
   \<and> str_isdigit (lower (strip [CHR ''7'', CHR 0xB2]))
   \<and> first_digit_run (lower (strip [CHR ''7'', CHR 0xB2])) = Some ''7''"
  by code_simp

section \<open>Properties of the decimal text of integers\<close>

lemma code_char_of_digit: "d < 10 \<Longrightarrow> code (char_of_digit d) = 0x30 + d"
  by (simp add: code_def char_of_digit_def)

lemma is_decimal_char_of_digit: "d < 10 \<Longrightarrow> is_decimal (char_of_digit d)"
  by (simp add: is_decimal_def code_char_of_digit)

lemma digit_val_char_of_digit: "d < 10 \<Longrightarrow> digit_val (char_of_digit d) = d"
  by (simp add: digit_val_def code_char_of_digit)

lemma str_nat_decimal: "list_all is_decimal (str_nat n)"
proof (induction n rule: str_nat.induct)
  case (1 n)
  show ?case
  proof (cases "n < 10")
    case True
    then show ?thesis by (subst str_nat.simps) (simp add: is_decimal_char_of_digit)
  next
    case False
    with 1 show ?thesis by (subst str_nat.simps) (simp add: is_decimal_char_of_digit)
  qed
qed

lemma str_nat_nonempty: "str_nat n \<noteq> []"
  by (subst str_nat.simps) simp

lemma nat_of_digits_snoc: "nat_of_digits (s @ [c]) = 10 * nat_of_digits s + digit_val c"
  by (simp add: nat_of_digits_def)

lemma nat_of_digits_str_nat: "nat_of_digits (str_nat n) = n"
proof (induction n rule: str_nat.induct)
  case (1 n)
  show ?case
  proof (cases "n < 10")
    case True
    then show ?thesis
      by (subst str_nat.simps) (simp add: nat_of_digits_def digit_val_char_of_digit)
  next
    case False
    with 1 show ?thesis
      by (subst str_nat.simps) (simp add: nat_of_digits_snoc digit_val_char_of_digit)
  qed
qed

lemma str_nat_small: "n < 10 \<Longrightarrow> str_nat n = [char_of_digit n]"
  by (subst str_nat.simps) simp

lemma str_nat_step: "10 \<le> n \<Longrightarrow> str_nat n = str_nat (n div 10) @ [char_of_digit (n mod 10)]"
  by (subst str_nat.simps) simp

lemma length_str_nat_le_3: "n < 1000 \<Longrightarrow> length (str_nat n) \<le> 3"
proof -
  assume n: "n < 1000"
  have 1: "length (str_nat m) \<le> 1" if "m < 10" for m
    using that by (simp add: str_nat_small)
  have 2: "length (str_nat m) \<le> 2" if "m < 100" for m
  proof (cases "m < 10")
    case True
    then show ?thesis using 1 [of m] by simp
  next
    case False
    with that have "m div 10 < 10" by simp
    then show ?thesis using False 1 [of "m div 10"] by (simp add: str_nat_step)
  qed
  show ?thesis
  proof (cases "n < 10")
    case True
    then show ?thesis using 1 [of n] by simp
  next
    case False
    with n have "n div 10 < 100" by simp
    then show ?thesis using False 2 [of "n div 10"] by (simp add: str_nat_step)
  qed
qed

lemma length_str_nat_ge_4: "1000 \<le> n \<Longrightarrow> 4 \<le> length (str_nat n)"
proof -
  assume n: "1000 \<le> n"
  then have a: "10 \<le> n" "10 \<le> n div 10" "10 \<le> n div 10 div 10"
    by simp_all
  have "1 \<le> length (str_nat (n div 10 div 10 div 10))"
    using str_nat_nonempty [of "n div 10 div 10 div 10"]
    by (cases "str_nat (n div 10 div 10 div 10)") auto
  then show ?thesis
    using a by (simp add: str_nat_step)
qed

lemma length_zfill: "length (zfill w s) = max w (length s)"
  by (cases s) (auto simp: zfill_def)

lemma zfill_id: "w \<le> length s \<Longrightarrow> zfill w s = s"
  by (simp add: zfill_def)

lemma is_digit_decimal: "is_decimal c \<Longrightarrow> is_digit c"
  by (simp add: is_digit_def)

lemma minus_not_digit: "\<not> is_digit (CHR ''-'')"
  by (simp add: is_digit_def is_decimal_def code_def)

section \<open>Properties of the roll filling functions\<close>

lemma int_of_digit_char: "is_decimal ch \<Longrightarrow> int_of_digit_str [ch] = Inr (int (digit_val ch))"
  by (simp add: int_of_digit_str_def nat_of_digits_def)

lemma int_of_digit_str_error: "int_of_digit_str s = Inl e \<Longrightarrow> e = ValueError"
  by (auto simp: int_of_digit_str_def split: if_splits)

lemma index_in_range: "i < length xs \<Longrightarrow> index xs i = Inr (xs ! i)"
  by (simp add: index_def)

lemma index_out_of_range: "length xs \<le> i \<Longrightarrow> index xs i = Inl IndexError"
  by (simp add: index_def)

lemma bubble_y_spec:
  "bubble_y L y_top (int d) = (y_top - of_nat d * bubble_spacing_cm L - 2.6 + fine_tune_cm L) * cm"
  by (simp add: bubble_y_def algebra_simps)

lemma layout_lengths:
  "length (roll_x_cm master_layout) = 3" "length (bubble_y_top_cm master_layout) = 3"
  "length (roll_x_cm child_layout) = 3" "length (bubble_y_top_cm child_layout) = 3"
  by (simp_all add: master_layout_def child_layout_def MASTER_ROLL_X_CM_def
      MASTER_BUBBLE_Y_TOP_CM_def CHILD_ROLL_X_CM_def CHILD_BUBBLE_Y_TOP_CM_def)

text \<open>Within the three columns and without superscript digits, the loop draws exactly
  the bubbles of the specification.\<close>

lemma fill_loop_coordinates:
  assumes "list_all (\<lambda>ch. is_digit ch = is_decimal ch) s"
    and "i + length s \<le> length (roll_x_cm L)"
    and "i + length s \<le> length (bubble_y_top_cm L)"
  shows "fill_loop L i s c = Inr (c @ bubble_ops L i s)"
  using assms
proof (induction s arbitrary: i c)
  case Nil
  show ?case by simp
next
  case (Cons ch rest)
  from Cons.prems have rest: "list_all (\<lambda>ch. is_digit ch = is_decimal ch) rest"
    and i: "i < length (roll_x_cm L)" "i < length (bubble_y_top_cm L)"
    and len: "Suc i + length rest \<le> length (roll_x_cm L)"
      "Suc i + length rest \<le> length (bubble_y_top_cm L)"
    and ch: "is_digit ch = is_decimal ch"
    by simp_all
  note IH = Cons.IH [OF rest len]
  show ?case
  proof (cases "is_decimal ch")
    case False
    with ch IH show ?thesis by simp
  next
    case True
    with ch i IH show ?thesis
      by (simp add: int_of_digit_char index_in_range bubble_x_def bubble_y_spec)
  qed
qed

text \<open>Within the three columns no index is out of range, whatever the characters.\<close>

lemma fill_loop_no_index_error:
  assumes "i + length s \<le> length (roll_x_cm L)"
    and "i + length s \<le> length (bubble_y_top_cm L)"
  shows "fill_loop L i s c \<noteq> Inl IndexError"
  using assms
proof (induction s arbitrary: i c)
  case Nil
  show ?case by simp
next
  case (Cons ch rest)
  from Cons.prems have i: "i < length (roll_x_cm L)" "i < length (bubble_y_top_cm L)"
    and len: "Suc i + length rest \<le> length (roll_x_cm L)"
      "Suc i + length rest \<le> length (bubble_y_top_cm L)"
    by simp_all
  note IH = Cons.IH [OF len]
  show ?case
  proof (cases "is_digit ch")
    case False
    with IH show ?thesis by simp
  next
    case True
    show ?thesis
    proof (cases "int_of_digit_str [ch]")
      case (Inl e)
      then have "e = ValueError" by (rule int_of_digit_str_error)
      with Inl True show ?thesis by simp
    next
      case (Inr d)
      with True i IH show ?thesis by (simp add: index_in_range)
    qed
  qed
qed

text \<open>Each character adds at most one circle.\<close>

lemma count_circles_append: "count_circles (a @ b) = count_circles a + count_circles b"
  by (simp add: count_circles_def)

lemma fill_loop_circles:
  "fill_loop L i s c = Inr c' \<Longrightarrow> count_circles c' \<le> count_circles c + length s"
proof (induction s arbitrary: i c)
  case Nil
  then show ?case by simp
next
  case (Cons ch rest)
  show ?case
  proof (cases "is_digit ch")
    case False
    with Cons.prems have "fill_loop L (Suc i) rest c = Inr c'" by simp
    from Cons.IH [OF this] show ?thesis by simp
  next
    case True
    with Cons.prems obtain x y r where
      "fill_loop L (Suc i) rest (c @ [SetFillColor ''black'', Circle x y r]) = Inr c'"
      by (auto simp: and_then_Inr_iff)
    from Cons.IH [OF this] show ?thesis
      by (simp add: count_circles_append) (simp add: count_circles_def is_circle_def)
  qed
qed

text \<open>A decimal digit at a column from the fourth on raises \<open>IndexError\<close>, when no
  superscript digit raises \<open>ValueError\<close> before it.\<close>

lemma fill_loop_index_error:
  assumes "list_all (\<lambda>ch. is_digit ch = is_decimal ch) s"
    and "k < length s" and "is_decimal (s ! k)" and "length (roll_x_cm L) \<le> i + k"
    and "length (roll_x_cm L) = length (bubble_y_top_cm L)"
  shows "fill_loop L i s c = Inl IndexError"
  using assms(1-4)
proof (induction s arbitrary: i k c)
  case Nil
  then show ?case by simp
next
  case (Cons ch rest)
  from Cons.prems(1) have rest: "list_all (\<lambda>ch. is_digit ch = is_decimal ch) rest"
    and ch: "is_digit ch = is_decimal ch" by simp_all
  show ?case
  proof (cases "is_decimal ch \<and> length (roll_x_cm L) \<le> i")
    case True
    with ch show ?thesis
      by (simp add: int_of_digit_char index_out_of_range)
  next
    case False
    have "k \<noteq> 0"
    proof
      assume "k = 0"
      with Cons.prems(3,4) False show False by simp
    qed
    then obtain k' where k: "k = Suc k'" by (cases k) auto
    with Cons.prems have "k' < length rest" "is_decimal (rest ! k')"
      "length (roll_x_cm L) \<le> Suc i + k'" by simp_all
    note IH = Cons.IH [OF rest this]
    show ?thesis
    proof (cases "is_decimal ch")
      case False
      with ch IH show ?thesis by simp
    next
      case True
      with False have "i < length (roll_x_cm L)" by simp
      with True ch IH assms(5) show ?thesis
        by (simp add: int_of_digit_char index_in_range)
    qed
  qed
qed

section \<open>Properties of the rounding to binary64\<close>

lemma bit_length_bounds: "0 < n \<Longrightarrow> 2 ^ (bit_length n - 1) \<le> n \<and> n < 2 ^ bit_length n"
proof (induction n rule: bit_length.induct)
  case (1 n)
  show ?case
  proof (cases "n div 2 = 0")
    case True
    with 1(2) have "n = 1" by (simp add: div_eq_0_iff)
    then show ?thesis
      by (subst (1 2) bit_length.simps, subst (1 2) bit_length.simps) simp
  next
    case False
    then have pos: "0 < n div 2" by simp
    from 1(2) have n0: "n \<noteq> 0" by simp
    from 1(1) [OF n0 pos] have lo: "2 ^ (bit_length (n div 2) - 1) \<le> n div 2"
      and hi: "n div 2 < 2 ^ bit_length (n div 2)" by simp_all
    have bl: "bit_length n = Suc (bit_length (n div 2))"
      using n0 by (subst bit_length.simps) simp
    have blpos: "0 < bit_length (n div 2)"
      using False by (subst bit_length.simps) simp
    then obtain j where j: "bit_length (n div 2) = Suc j" by (cases "bit_length (n div 2)") auto
    from lo j have "2 * 2 ^ j \<le> 2 * (n div 2)" by simp
    then have a: "2 ^ (bit_length n - 1) \<le> n" using bl j by simp
    from hi have "n div 2 + 1 \<le> 2 ^ bit_length (n div 2)" by simp
    then have "2 * (n div 2) + 2 \<le> 2 * 2 ^ bit_length (n div 2)" by simp
    then have b: "n < 2 ^ bit_length n" using bl by simp
    from a b show ?thesis by simp
  qed
qed

lemma bit_length_1: "bit_length (Suc 0) = Suc 0"
  by (subst bit_length.simps, subst bit_length.simps) simp

lemma bit_length_le: "0 < n \<Longrightarrow> n < 2 ^ k \<Longrightarrow> bit_length n \<le> k"
proof -
  assume n: "0 < n" "n < 2 ^ k"
  from bit_length_bounds [OF n(1)] have "(2::nat) ^ (bit_length n - 1) \<le> n" by simp
  with n(2) have "(2::nat) ^ (bit_length n - 1) < 2 ^ k" by linarith
  then have "bit_length n - 1 < k" by (rule power_less_imp_less_exp [rotated]) simp
  then show ?thesis by simp
qed

lemma bit_length_pos: "0 < n \<Longrightarrow> 0 < bit_length n"
  by (subst bit_length.simps) simp

lemma round_half_even_int: "round_half_even (of_int z) = z"
  by (simp add: round_half_even_def)

lemma floor_log2_nat:
  assumes "0 < n"
  shows "floor_log2 (of_nat n) = int (bit_length n) - 1"
proof -
  have q: "quotient_of (of_nat n) = (int n, 1)"
    using quotient_of_int [of "int n"] by simp
  from bit_length_pos [OF assms] obtain j where j: "bit_length n = Suc j"
    by (cases "bit_length n") auto
  from bit_length_bounds [OF assms] j have "2 ^ j \<le> n" by simp
  then have "(2::rat) ^ j \<le> of_nat n"
    by (metis of_nat_le_iff of_nat_numeral of_nat_power)
  then show ?thesis
    by (simp add: floor_log2_def q bit_length_1 j pow2_def)
qed

lemma pow2_neg_nat: "pow2 (- int m) = 1 / 2 ^ m"
proof (cases "m = 0")
  case True
  then show ?thesis by (simp add: pow2_def)
next
  case False
  then have "\<not> 0 \<le> - int m" by simp
  moreover have "nat (- (- int m)) = m" by simp
  ultimately show ?thesis by (simp only: pow2_def if_False)
qed

lemma round_pos_nat:
  assumes "0 < n" and "n < 2 ^ 53"
  shows "round_pos (of_nat n) = of_nat n"
proof -
  from bit_length_pos [OF assms(1)] obtain j where j: "bit_length n = Suc j"
    by (cases "bit_length n") auto
  from bit_length_le [OF assms] j have j52: "j \<le> 52" by simp
  have e: "floor_log2 (of_nat n) = int j"
    using floor_log2_nat [OF assms(1)] j by simp
  have p: "max (int j - 52) (- 1074) = - int (52 - j)"
    using j52 by simp
  have pw: "pow2 (- int (52 - j)) = 1 / 2 ^ (52 - j)"
    by (rule pow2_neg_nat)
  have "(of_nat n :: rat) / (1 / 2 ^ (52 - j)) = of_int (int n * 2 ^ (52 - j))"
    by simp
  then have "round_half_even ((of_nat n :: rat) / (1 / 2 ^ (52 - j))) = int n * 2 ^ (52 - j)"
    by (simp only: round_half_even_int)
  then show ?thesis
    by (simp only: round_pos_def e p pw Let_def) simp
qed

lemma round_binary64_int:
  assumes "\<bar>z\<bar> < 2 ^ 53"
  shows "round_binary64 (of_int z) = Fin (of_int z)"
proof (cases "z = 0")
  case True
  then show ?thesis by (simp add: round_binary64_def)
next
  case False
  define n where "n = nat \<bar>z\<bar>"
  from False assms have n: "0 < n" "n < 2 ^ 53"
    by (simp_all add: n_def nat_less_iff)
  have rp: "round_pos (of_nat n) = of_nat n"
    by (rule round_pos_nat [OF n])
  have "(of_nat n :: rat) < 2 ^ 53"
    using n(2) by (metis of_nat_less_iff of_nat_numeral of_nat_power)
  also have "(2::rat) ^ 53 \<le> 2 ^ 1024" by simp
  finally have small: "\<not> (2::rat) ^ 1024 \<le> of_nat n" by simp
  have npos: "(0::rat) < of_nat n" using n(1) by simp
  have pos_case: "round_binary64 (of_nat n) = Fin (of_nat n)"
    unfolding round_binary64_def using npos small by (simp add: rp)
  have neg_case: "round_binary64 (- of_nat n) = Fin (- of_nat n)"
    unfolding round_binary64_def using npos small by (simp add: rp)
  show ?thesis
  proof (cases "z < 0")
    case True
    then have "(of_int z :: rat) = - of_nat n" by (simp add: n_def)
    with neg_case show ?thesis by simp
  next
    case False
    with \<open>z \<noteq> 0\<close> have "(of_int z :: rat) = of_nat n" by (simp add: n_def)
    with pos_case show ?thesis by simp
  qed
qed

lemma int_of_Fin_int: "int_of (Fin (of_int z)) = Inr z"
  by simp

lemma float_of_PInt: "\<bar>z\<bar> < 2 ^ 53 \<Longrightarrow> float_of (PInt z) = Inr (Fin (of_int z))"
  by (simp add: round_binary64_int)

section \<open>Properties of the conversion of strings to floats\<close>

lemma decimal_not_space: "is_decimal c \<Longrightarrow> \<not> is_space c"
  by (auto simp: is_decimal_def is_space_def)

lemma decimal_not_float_space: "is_decimal c \<Longrightarrow> \<not> is_float_space c"
  by (auto simp: is_decimal_def is_float_space_def)

lemma decimal_chars:
  "is_decimal c \<Longrightarrow> c \<noteq> CHR ''_''" "is_decimal c \<Longrightarrow> c \<noteq> CHR ''-''"
  "is_decimal c \<Longrightarrow> c \<noteq> CHR ''+''" "is_decimal c \<Longrightarrow> c \<noteq> CHR ''.''"
  "is_decimal c \<Longrightarrow> c \<noteq> CHR ''i''" "is_decimal c \<Longrightarrow> c \<noteq> CHR ''n''"
  "is_decimal (CHR ''0'')" "digit_val (CHR ''0'') = 0"
  by (auto simp: is_decimal_def digit_val_def code_def)

lemma to_lower_decimal: "is_decimal c \<Longrightarrow> to_lower c = c"
  by (simp add: to_lower_def is_decimal_def)

lemma strip_eq_Nil_iff: "strip s = [] \<longleftrightarrow> list_all is_space s"
proof
  assume "strip s = []"
  then have all: "\<forall>x\<in>set (dropWhile is_space s). is_space x"
    by (simp add: strip_def dropWhile_eq_Nil_conv)
  have "dropWhile is_space s = []"
  proof (rule ccontr)
    assume ne: "dropWhile is_space s \<noteq> []"
    then have "\<not> is_space (hd (dropWhile is_space s))" by (rule hd_dropWhile)
    moreover from ne have "hd (dropWhile is_space s) \<in> set (dropWhile is_space s)" by simp
    ultimately show False using all by blast
  qed
  then show "list_all is_space s"
    by (simp add: dropWhile_eq_Nil_conv list_all_iff)
next
  assume "list_all is_space s"
  then show "strip s = []"
    by (auto simp: strip_def list_all_iff dest: set_dropWhileD)
qed

lemma strip_nonblank: "c \<in> set s \<Longrightarrow> \<not> is_space c \<Longrightarrow> strip s \<noteq> []"
  by (auto simp: strip_eq_Nil_iff list_all_iff)

lemma underscores_ok_free: "CHR ''_'' \<notin> set s \<Longrightarrow> prev \<noteq> CHR ''_'' \<Longrightarrow> underscores_ok prev s"
  by (induction s arbitrary: prev) auto

lemma filter_underscore_free: "CHR ''_'' \<notin> set s \<Longrightarrow> filter (\<lambda>c. c \<noteq> CHR ''_'') s = s"
  by (induction s) auto

lemma float_strip_id:
  assumes "s \<noteq> []" and "\<not> is_float_space (hd s)" and "\<not> is_float_space (last s)"
  shows "rev (dropWhile is_float_space (rev (dropWhile is_float_space s))) = s"
proof -
  from assms(1,2) have a: "dropWhile is_float_space s = s" by (cases s) auto
  from assms(1) obtain x xs where r: "rev s = x # xs" by (cases "rev s") auto
  from assms(1) have "hd (rev s) = last s" by (simp add: hd_rev)
  with r assms(3) have "\<not> is_float_space x" by simp
  then have "dropWhile is_float_space (rev s) = rev s" by (simp add: r)
  with a show ?thesis by simp
qed

text \<open>A non-empty string of decimal digits, alone or followed by \<open>.0\<close>, is read as the
  number it writes.\<close>

lemma parse_float_body_digits:
  assumes ne: "ds \<noteq> []" and dec: "list_all is_decimal ds" and t: "t = [] \<or> t = ''.0''"
  shows "parse_float_body (ds @ t) = Inr (round_binary64 (of_nat (nat_of_digits ds)))"
proof -
  from ne obtain d ds' where ds: "ds = d # ds'" by (cases ds) auto
  with dec have d: "is_decimal d" by simp
  have sign: "split_sign (ds @ t) = (False, ds @ t)"
    using d by (simp add: ds split_sign_def decimal_chars)
  have low: "lower (ds @ t) = d # lower (ds' @ t)"
    using d by (simp add: ds lower_def to_lower_decimal)
  have noinf: "lower (ds @ t) \<noteq> ''inf''" "lower (ds @ t) \<noteq> ''infinity''" "lower (ds @ t) \<noteq> ''nan''"
    using d by (auto simp: low decimal_chars)
  have tw: "takeWhile is_decimal (ds @ t) = ds"
    using dec t by (auto simp: takeWhile_append2 list_all_iff is_decimal_def code_def)
  have dw: "dropWhile is_decimal (ds @ t) = t"
    using dec t by (auto simp: dropWhile_append2 list_all_iff is_decimal_def code_def)
  have body: "parse_float_body (ds @ t) =
      (let fp = (case t of [] \<Rightarrow> [] | c # u \<Rightarrow> if c = CHR ''.'' then takeWhile is_decimal u else []);
           r2 = (case t of [] \<Rightarrow> [] | c # u \<Rightarrow> if c = CHR ''.'' then dropWhile is_decimal u else t)
       in case parse_exponent r2 of
            None \<Rightarrow> Inl ValueError
          | Some ex \<Rightarrow>
              Inr (signed_float False
                     (round_binary64 (of_nat (nat_of_digits (ds @ fp)) * pow10 (ex - int (length fp))))))"
    using ne by (simp add: parse_float_body_def sign noinf tw dw Let_def)
  from t show ?thesis
  proof
    assume "t = []"
    then show ?thesis
      by (subst body) (simp add: parse_exponent_def pow10_def signed_float_def)
  next
    assume t: "t = ''.0''"
    have v: "(of_nat (nat_of_digits (ds @ ''0'')) :: rat) * pow10 (- 1) = of_nat (nat_of_digits ds)"
      by (simp add: nat_of_digits_snoc decimal_chars pow10_def)
    show ?thesis
      by (subst body) (simp add: t decimal_chars parse_exponent_def v signed_float_def)
  qed
qed

lemma float_of_str_digits:
  assumes ne: "ds \<noteq> []" and dec: "list_all is_decimal ds" and t: "t = [] \<or> t = ''.0''"
  shows "float_of_str (ds @ t) = Inr (round_binary64 (of_nat (nat_of_digits ds)))"
proof -
  have "CHR ''_'' \<notin> set ds"
  proof
    assume "CHR ''_'' \<in> set ds"
    with dec have "is_decimal (CHR ''_'')" by (simp add: list_all_iff)
    then show False by (simp add: is_decimal_def code_def)
  qed
  moreover have "CHR ''_'' \<notin> set t" using t by auto
  ultimately have free: "CHR ''_'' \<notin> set (ds @ t)" by simp
  have hd: "\<not> is_float_space (hd (ds @ t))"
    using ne dec by (cases ds) (simp_all add: decimal_not_float_space)
  have "is_decimal (last (ds @ t))"
  proof (cases "t = []")
    case True
    from ne have "last ds \<in> set ds" by simp
    with dec True show ?thesis by (simp add: list_all_iff)
  next
    case False
    with t have "t = ''.0''" by simp
    then show ?thesis by (simp add: decimal_chars(7))
  qed
  then have last: "\<not> is_float_space (last (ds @ t))" by (rule decimal_not_float_space)
  have nonempty: "ds @ t \<noteq> []" using ne by simp
  have u: "underscores_ok (CHR 0x00) (ds @ t)"
    by (rule underscores_ok_free [OF free]) simp
  have f: "filter (\<lambda>c. c \<noteq> CHR ''_'') (ds @ t) = ds @ t"
    by (rule filter_underscore_free [OF free])
  have st: "rev (dropWhile is_float_space (rev (dropWhile is_float_space (ds @ t)))) = ds @ t"
    by (rule float_strip_id [OF nonempty hd last])
  have "float_of_str (ds @ t) = parse_float_body (ds @ t)"
    unfolding float_of_str_def Let_def f st using u nonempty by (simp only: if_False not_True_eq_False simp_thms)
  then show ?thesis
    by (simp only: parse_float_body_digits [OF ne dec t])
qed

section \<open>Properties of the roll number normalizer\<close>

lemma str_int_nonneg: "0 \<le> z \<Longrightarrow> str_int z = str_nat (nat z)"
  by (simp add: str_int_def)

lemma str_int_neg: "z < 0 \<Longrightarrow> str_int z = CHR ''-'' # str_nat (nat (- z))"
  by (simp add: str_int_def)

lemma str_int_has_decimal: "\<exists>ch \<in> set (str_int z). is_decimal ch"
proof -
  obtain d ds where "str_nat (nat \<bar>z\<bar>) = d # ds"
    using str_nat_nonempty [of "nat \<bar>z\<bar>"] by (cases "str_nat (nat \<bar>z\<bar>)") auto
  moreover from this have "is_decimal d"
    using str_nat_decimal [of "nat \<bar>z\<bar>"] by simp
  ultimately show ?thesis
    by (cases "z < 0") (auto simp: str_int_def abs_if)
qed

lemma str_int_not_blank: "strip (str_int z) \<noteq> []"
proof -
  from str_int_has_decimal [of z] obtain ch where "ch \<in> set (str_int z)" "is_decimal ch"
    by blast
  then show ?thesis by (intro strip_nonblank [of ch]) (simp_all add: decimal_not_space)
qed

lemma str_int_clean: "list_all (\<lambda>ch. is_digit ch = is_decimal ch) (str_int z)"
proof -
  have "list_all (\<lambda>ch. is_digit ch = is_decimal ch) (str_nat m)" for m
    using str_nat_decimal [of m] by (auto simp: list_all_iff is_digit_decimal)
  moreover have "is_digit (CHR ''-'') = is_decimal (CHR ''-'')"
    by (simp add: is_digit_def is_decimal_def code_def)
  ultimately show ?thesis by (simp add: str_int_def)
qed

lemma str_int_tail_decimal:
  assumes "0 < k" and "k < length (str_int z)"
  shows "is_decimal (str_int z ! k)"
proof (cases "z < 0")
  case True
  with assms obtain k' where "k = Suc k'" "k' < length (str_nat (nat (- z)))"
    by (cases k) (auto simp: str_int_def)
  then show ?thesis
    using True str_nat_decimal [of "nat (- z)"] by (simp add: str_int_def list_all_length)
next
  case False
  with assms show ?thesis
    using str_nat_decimal [of "nat z"] by (simp add: str_int_def list_all_length)
qed

lemma format_roll_value_blank:
  "py_isna v \<or> strip (py_str v) = [] \<Longrightarrow> format_roll_value v = Inr ''000''"
  by (auto simp: format_roll_value_def)

lemma format_roll_value_int:
  assumes "\<bar>z\<bar> < 2 ^ 53"
  shows "format_roll_value (PInt z) = Inr (zfill 3 (str_int z))"
  using assms by (simp add: format_roll_value_def str_int_not_blank round_binary64_int)

lemma format_roll_value_float:
  assumes "strip r \<noteq> []"
  shows "format_roll_value (PFloat (Fin (of_int z)) r) = Inr (zfill 3 (str_int z))"
  using assms by (simp add: format_roll_value_def)

lemma format_roll_value_digits:
  assumes "ds \<noteq> []" and "list_all is_decimal ds" and "t = [] \<or> t = ''.0''"
    and "nat_of_digits ds < 2 ^ 53"
  shows "format_roll_value (PStr (ds @ t)) = Inr (zfill 3 (str_int (int (nat_of_digits ds))))"
proof -
  obtain d ds' where ds: "ds = d # ds'" using assms(1) by (cases ds) auto
  with assms(2) have "is_decimal d" by simp
  then have "strip (ds @ t) \<noteq> []"
    by (intro strip_nonblank [of d]) (simp_all add: ds decimal_not_space)
  moreover have "\<bar>int (nat_of_digits ds)\<bar> < 2 ^ 53"
    using assms(4) by (metis abs_of_nat of_nat_less_iff of_nat_numeral of_nat_power)
  then have "round_binary64 (of_nat (nat_of_digits ds)) = Fin (of_int (int (nat_of_digits ds)))"
    using round_binary64_int [of "int (nat_of_digits ds)"] by simp
  ultimately show ?thesis
    using float_of_str_digits [OF assms(1-3)]
    by (simp add: format_roll_value_def del: of_int_of_nat_eq)
qed

text \<open>The fallback branch: a text that \<open>float\<close> rejects is padded on the left and cut
  to its first three characters.\<close>

lemma format_roll_value_fallback:
  assumes "strip s \<noteq> []" and "float_of_str s = Inl ValueError"
  shows "format_roll_value (PStr s) = Inr (take 3 (zfill 3 s)) \<and> length (take 3 (zfill 3 s)) = 3"
  using assms by (simp add: format_roll_value_def length_zfill)

text \<open>Every result of the normalizer is \<open>"000"\<close>, the padded text of an integer, or a
  three-character text; it never has fewer than three characters.\<close>

lemma format_roll_value_shape:
  assumes "format_roll_value v = Inr r"
  shows "(\<exists>z. r = zfill 3 (str_int z)) \<or> length r = 3"
proof (cases "py_isna v \<or> strip (py_str v) = []")
  case True
  with assms show ?thesis by (auto simp: format_roll_value_def)
next
  case False
  show ?thesis
  proof (cases "and_then (float_of v) int_of")
    case (Inr z)
    with assms False show ?thesis by (auto simp: format_roll_value_def)
  next
    case (Inl e)
    with assms False have "e = ValueError" "r = take 3 (zfill 3 (py_str v))"
      by (cases e; simp add: format_roll_value_def)+
    then show ?thesis by (simp add: length_zfill)
  qed
qed

lemma format_roll_value_length: "format_roll_value v = Inr r \<Longrightarrow> 3 \<le> length r"
  using format_roll_value_shape [of v r] by (auto simp: length_zfill)

lemma format_roll_value_examples:
  "format_roll_value (PStr ''7'') = Inr ''007''"
  "format_roll_value (PStr ''12.0'') = Inr ''012''"
  "format_roll_value (PStr ''abc'') = Inr ''abc''"
  "format_roll_value (PStr []) = Inr ''000''"
  "format_roll_value PNone = Inr ''000''"
  "format_roll_value (PFloat NaN ''nan'') = Inr ''000''"
proof -
  have d7: "list_all is_decimal ''7''" and d12: "list_all is_decimal ''12''"
    by code_simp+
  have v7: "nat_of_digits ''7'' = 7" and v12: "nat_of_digits ''12'' = 12"
    by code_simp+
  have z7: "zfill 3 (str_int 7) = ''007''" and z12: "zfill 3 (str_int 12) = ''012''"
    by code_simp+
  show "format_roll_value (PStr ''7'') = Inr ''007''"
    using format_roll_value_digits [of "''7''" "[]"] d7 by (simp add: v7 z7)
  show "format_roll_value (PStr ''12.0'') = Inr ''012''"
    using format_roll_value_digits [of "''12''" "''.0''"] d12 by (simp add: v12 z12)
  have "float_of_str ''abc'' = Inl ValueError" and "strip ''abc'' \<noteq> []"
    and "take 3 (zfill 3 ''abc'') = ''abc''"
    by code_simp+
  then show "format_roll_value (PStr ''abc'') = Inr ''abc''"
    using format_roll_value_fallback [of "''abc''"] by simp
  show "format_roll_value (PStr []) = Inr ''000''"
    by (simp add: format_roll_value_def strip_def)
  show "format_roll_value PNone = Inr ''000''"
    by (simp add: format_roll_value_def)
  show "format_roll_value (PFloat NaN ''nan'') = Inr ''000''"
    by (simp add: format_roll_value_def)
qed

text \<open>
  Claim C1 fails on the code at the roll number 1000, as an integer cell or as text: the
  numeric branch pads to at least three characters and never cuts, so the result has
  four characters, where the fallback branch cuts to three.
\<close>

theorem format_roll_value_four_digits:
  "format_roll_value (PInt 1000) = Inr ''1000''
   \<and> format_roll_value (PStr ''1000'') = Inr ''1000''
   \<and> length ''1000'' = 4"
proof -
  have d: "list_all is_decimal ''1000''" and v: "nat_of_digits ''1000'' = 1000"
    and z: "zfill 3 (str_int 1000) = ''1000''"
    by code_simp+
  have "format_roll_value (PInt 1000) = Inr ''1000''"
    using format_roll_value_int [of 1000] by (simp add: z)
  moreover have "format_roll_value (PStr ''1000'') = Inr ''1000''"
    using format_roll_value_digits [of "''1000''" "[]"] d by (simp add: v z)
  ultimately show ?thesis by simp
qed

lemma char_of_digit_0: "char_of_digit 0 = CHR ''0''"
  by code_simp

lemma char_of_digit_not_sign:
  "d < 10 \<Longrightarrow> char_of_digit d \<noteq> CHR ''+'' \<and> char_of_digit d \<noteq> CHR ''-''"
  using is_decimal_char_of_digit [of d] decimal_chars(2,3) by blast

lemma zfill_one: "c \<noteq> CHR ''+'' \<and> c \<noteq> CHR ''-'' \<Longrightarrow> zfill 3 [c] = [CHR ''0'', CHR ''0'', c]"
  by (simp add: zfill_def numeral_eq_Suc)

lemma zfill_two: "c \<noteq> CHR ''+'' \<and> c \<noteq> CHR ''-'' \<Longrightarrow> zfill 3 [c, d] = [CHR ''0'', c, d]"
  by (simp add: zfill_def numeral_eq_Suc)

text \<open>The padded text of a number below 1000 is its three decimal digits.\<close>

lemma zfill_str_nat:
  assumes "m < 1000"
  shows "zfill 3 (str_nat m) =
     [char_of_digit (m div 100), char_of_digit (m div 10 mod 10), char_of_digit (m mod 10)]"
proof -
  consider "m < 10" | "10 \<le> m" "m < 100" | "100 \<le> m" by linarith
  then show ?thesis
  proof cases
    case 1
    then have "m div 100 = 0" "m div 10 = 0" by simp_all
    with 1 show ?thesis
      using char_of_digit_not_sign [of m]
      by (simp add: str_nat_small zfill_one char_of_digit_0)
  next
    case 2
    then have s: "str_nat m = [char_of_digit (m div 10), char_of_digit (m mod 10)]"
      by (simp add: str_nat_step str_nat_small)
    from 2 have "m div 100 = 0" "m div 10 mod 10 = m div 10" "m div 10 < 10" by simp_all
    then show ?thesis
      using char_of_digit_not_sign [of "m div 10"]
      by (simp add: s zfill_two char_of_digit_0)
  next
    case 3
    with assms have a: "10 \<le> m" "10 \<le> m div 10" "m div 10 div 10 < 10" by simp_all
    have "m div 10 div 10 = m div 100" by (simp add: div_mult2_eq [symmetric])
    with a show ?thesis
      by (simp add: str_nat_step [of m] str_nat_step [of "m div 10"] str_nat_small zfill_def)
  qed
qed

text \<open>
  Claim C10. For every integer \<open>n\<close> from 0 to 999, the normalizer returns the same text,
  the three decimal digits of \<open>n\<close> with leading zeros, for the integer \<open>n\<close>, for the float
  of value \<open>n\<close> (whose text is the decimal text of \<open>n\<close> followed by \<open>.0\<close>), for the
  decimal text of \<open>n\<close> and for that text followed by \<open>.0\<close>.
\<close>

theorem format_roll_value_representation_invariant:
  assumes "0 \<le> n" and "n \<le> 999"
  shows "format_roll_value (PInt n) =
           Inr [char_of_digit (nat n div 100), char_of_digit (nat n div 10 mod 10), char_of_digit (nat n mod 10)]
       \<and> format_roll_value (PFloat (Fin (of_int n)) (str_int n @ ''.0'')) = format_roll_value (PInt n)
       \<and> format_roll_value (PStr (str_int n)) = format_roll_value (PInt n)
       \<and> format_roll_value (PStr (str_int n @ ''.0'')) = format_roll_value (PInt n)
       \<and> format_roll_value (PInt n) = Inr (zfill 3 (str_int n))
       \<and> length (zfill 3 (str_int n)) = 3"
proof -
  from assms have small: "\<bar>n\<bar> < 2 ^ 53" by simp
  from assms have m: "nat n < 1000" by simp
  have s: "str_int n = str_nat (nat n)" using assms(1) by (rule str_int_nonneg)
  have a: "format_roll_value (PInt n) = Inr (zfill 3 (str_int n))"
    using small by (rule format_roll_value_int)
  have pad: "zfill 3 (str_int n) =
      [char_of_digit (nat n div 100), char_of_digit (nat n div 10 mod 10), char_of_digit (nat n mod 10)]"
    unfolding s using m by (rule zfill_str_nat)
  have "strip (str_int n @ ''.0'') \<noteq> []"
    by (rule strip_nonblank [of "CHR ''0''"]) (simp_all add: decimal_not_space decimal_chars(7))
  then have b: "format_roll_value (PFloat (Fin (of_int n)) (str_int n @ ''.0'')) = Inr (zfill 3 (str_int n))"
    by (rule format_roll_value_float)
  have v: "int (nat_of_digits (str_nat (nat n))) = n"
    using assms(1) by (simp add: nat_of_digits_str_nat)
  have lt: "nat_of_digits (str_nat (nat n)) < 2 ^ 53"
    using m by (simp add: nat_of_digits_str_nat)
  have c: "format_roll_value (PStr (str_int n)) = Inr (zfill 3 (str_int n))"
    using format_roll_value_digits [OF str_nat_nonempty str_nat_decimal _ lt, of "[]"]
    by (simp add: s v)
  have d: "format_roll_value (PStr (str_int n @ ''.0'')) = Inr (zfill 3 (str_int n))"
    using format_roll_value_digits [OF str_nat_nonempty str_nat_decimal _ lt, of "''.0''"]
    by (simp add: s v)
  from a b c d pad show ?thesis by simp
qed

theorem format_roll_value_representation_invariant_witness:
  "(0::int) \<le> 42 \<and> (42::int) \<le> 999
   \<and> format_roll_value (PInt 42) = Inr ''042''
   \<and> format_roll_value (PFloat (Fin 42) ''42.0'') = Inr ''042''
   \<and> format_roll_value (PStr ''42'') = Inr ''042''
   \<and> format_roll_value (PStr ''42.0'') = Inr ''042''"
proof -
  have z: "zfill 3 ''42'' = ''042''" and s: "str_int 42 = ''42''"
    and d: "char_of_digit 0 = CHR ''0''" "char_of_digit 4 = CHR ''4''" "char_of_digit 2 = CHR ''2''"
    by code_simp+
  from format_roll_value_representation_invariant [of 42] show ?thesis
    by (simp add: z s d)
qed

section \<open>The roll filling functions on the results of the normalizer\<close>

text \<open>Without superscript digits, and with every decimal digit inside the columns, the
  loop draws exactly the bubbles of the specification, however long the string.\<close>

lemma fill_loop_succeeds:
  assumes "list_all (\<lambda>ch. is_digit ch = is_decimal ch) s"
    and "\<And>k. k < length s \<Longrightarrow> is_decimal (s ! k) \<Longrightarrow> i + k < length (roll_x_cm L)"
    and "length (roll_x_cm L) = length (bubble_y_top_cm L)"
  shows "fill_loop L i s c = Inr (c @ bubble_ops L i s)"
  using assms(1,2)
proof (induction s arbitrary: i c)
  case Nil
  show ?case by simp
next
  case (Cons ch rest)
  from Cons.prems(1) have rest: "list_all (\<lambda>ch. is_digit ch = is_decimal ch) rest"
    and ch: "is_digit ch = is_decimal ch" by simp_all
  have step: "Suc i + k < length (roll_x_cm L)" if "k < length rest" "is_decimal (rest ! k)" for k
    using Cons.prems(2) [of "Suc k"] that by simp
  note IH = Cons.IH [OF rest step]
  show ?case
  proof (cases "is_decimal ch")
    case False
    with ch IH show ?thesis by simp
  next
    case True
    with Cons.prems(2) [of 0] have "i < length (roll_x_cm L)" by simp
    with True ch IH assms(3) show ?thesis
      by (simp add: int_of_digit_char index_in_range bubble_x_def bubble_y_spec)
  qed
qed

text \<open>A result of the normalizer with more than three characters is the decimal text
  of an integer, and both filling functions raise \<open>IndexError\<close> on it.\<close>

lemma fill_loop_long_roll:
  assumes "format_roll_value v = Inr r" and "3 < length r"
    and "length (roll_x_cm L) = 3" and "length (bubble_y_top_cm L) = 3"
  shows "fill_loop L 0 (zfill 3 r) c = Inl IndexError"
proof -
  from format_roll_value_shape [OF assms(1)] assms(2)
  obtain z where r: "r = zfill 3 (str_int z)" by auto
  with assms(2) have "3 < length (str_int z)" by (simp add: length_zfill)
  then have len: "3 < length (str_int z)" and id: "zfill 3 (str_int z) = str_int z"
    by (simp_all add: zfill_id)
  have dec: "is_decimal (str_int z ! 3)"
    using len by (intro str_int_tail_decimal) simp_all
  have "fill_loop L 0 (str_int z) c = Inl IndexError"
    by (rule fill_loop_index_error [OF str_int_clean len dec]) (simp_all add: assms(3,4))
  then show ?thesis by (simp add: r id)
qed

text \<open>
  Claim C9. Both column lists have three elements, so an index from 3 on is out of range;
  every result of the normalizer that is longer than three characters (the integer cells
  from 1000 on give such results) makes both filling functions raise \<open>IndexError\<close>; and
  for a roll string of at most three characters neither function raises \<open>IndexError\<close>
  and each draws at most one circle per character of the padded string.
\<close>

theorem fill_roll_bubbles_index_range:
  "(3 \<le> i \<longrightarrow> index MASTER_ROLL_X_CM i = Inl IndexError \<and> index CHILD_ROLL_X_CM i = Inl IndexError
                \<and> index MASTER_BUBBLE_Y_TOP_CM i = Inl IndexError \<and> index CHILD_BUBBLE_Y_TOP_CM i = Inl IndexError)
   \<and> (format_roll_value v = Inr r \<and> 3 < length r \<longrightarrow>
         fill_roll_bubbles_master c r = Inl IndexError \<and> fill_roll_bubbles_child c r = Inl IndexError)
   \<and> (1000 \<le> n \<and> n < 2 ^ 53 \<longrightarrow>
         format_roll_value (PInt n) = Inr (str_int n) \<and> 3 < length (str_int n))
   \<and> (length roll \<le> 3 \<longrightarrow>
         fill_roll_bubbles_master c roll \<noteq> Inl IndexError
         \<and> fill_roll_bubbles_child c roll \<noteq> Inl IndexError
         \<and> (\<forall>c'. fill_roll_bubbles_master c roll = Inr c' \<or> fill_roll_bubbles_child c roll = Inr c'
                \<longrightarrow> count_circles c' \<le> count_circles c + length (zfill 3 roll))
         \<and> length (zfill 3 roll) = 3)"
proof -
  have a: "index MASTER_ROLL_X_CM i = Inl IndexError \<and> index CHILD_ROLL_X_CM i = Inl IndexError
         \<and> index MASTER_BUBBLE_Y_TOP_CM i = Inl IndexError \<and> index CHILD_BUBBLE_Y_TOP_CM i = Inl IndexError"
    if "3 \<le> i"
    using that
    by (simp add: index_def MASTER_ROLL_X_CM_def CHILD_ROLL_X_CM_def MASTER_BUBBLE_Y_TOP_CM_def
        CHILD_BUBBLE_Y_TOP_CM_def)
  have b: "fill_roll_bubbles_master c r = Inl IndexError \<and> fill_roll_bubbles_child c r = Inl IndexError"
    if "format_roll_value v = Inr r" "3 < length r"
    using that
    by (simp add: fill_roll_bubbles_master_def fill_roll_bubbles_child_def fill_loop_long_roll
        layout_lengths)
  have d: "format_roll_value (PInt n) = Inr (str_int n) \<and> 3 < length (str_int n)"
    if "1000 \<le> n" "n < 2 ^ 53"
  proof -
    from that have "\<bar>n\<bar> < 2 ^ 53" by simp
    then have f: "format_roll_value (PInt n) = Inr (zfill 3 (str_int n))"
      by (rule format_roll_value_int)
    from that(1) have "1000 \<le> nat n" by simp
    then have "4 \<le> length (str_nat (nat n))" by (rule length_str_nat_ge_4)
    with that(1) have "3 < length (str_int n)" by (simp add: str_int_def)
    with f show ?thesis by (simp add: zfill_id)
  qed
  have e: "fill_roll_bubbles_master c roll \<noteq> Inl IndexError
         \<and> fill_roll_bubbles_child c roll \<noteq> Inl IndexError
         \<and> (\<forall>c'. fill_roll_bubbles_master c roll = Inr c' \<or> fill_roll_bubbles_child c roll = Inr c'
                \<longrightarrow> count_circles c' \<le> count_circles c + length (zfill 3 roll))
         \<and> length (zfill 3 roll) = 3"
    if "length roll \<le> 3"
  proof -
    from that have len: "length (zfill 3 roll) = 3" by (simp add: length_zfill)
    have "fill_loop L 0 (zfill 3 roll) c \<noteq> Inl IndexError"
      if "length (roll_x_cm L) = 3" "length (bubble_y_top_cm L) = 3" for L
      by (rule fill_loop_no_index_error) (simp_all add: len that)
    then show ?thesis
      using len
      by (auto simp: fill_roll_bubbles_master_def fill_roll_bubbles_child_def layout_lengths
          dest: fill_loop_circles)
  qed
  from a b d e show ?thesis by blast
qed

theorem fill_roll_bubbles_index_range_witness:
  "(3::nat) \<le> 3 \<and> index MASTER_ROLL_X_CM 3 = Inl IndexError
   \<and> format_roll_value (PInt 1000) = Inr ''1000'' \<and> 3 < length ''1000''
   \<and> fill_roll_bubbles_master [] ''1000'' = Inl IndexError
   \<and> fill_roll_bubbles_child [] ''1000'' = Inl IndexError
   \<and> (1000::int) \<le> 1000 \<and> (1000::int) < 2 ^ 53
   \<and> length ''007'' \<le> 3
   \<and> fill_roll_bubbles_master [] ''007'' \<noteq> Inl IndexError
   \<and> (\<exists>c'. fill_roll_bubbles_master [] ''007'' = Inr c' \<and> count_circles c' \<le> count_circles [] + 3)"
proof -
  have s: "str_int 1000 = ''1000''" by code_simp
  have ok: "\<not> isl (fill_roll_bubbles_master [] ''007'')" by code_simp
  then obtain c' where c': "fill_roll_bubbles_master [] ''007'' = Inr c'"
    by (cases "fill_roll_bubbles_master [] ''007''") auto
  have z: "length (zfill 3 ''007'') = 3" by (simp add: length_zfill)
  from fill_roll_bubbles_index_range [of 3 "PInt 1000" "''1000''" "[]" 1000 "''007''"] c'
  show ?thesis by (simp add: s z)
qed

text \<open>On a roll string without superscript digits, \<open>IndexError\<close> is raised exactly when
  a decimal digit stands at the fourth character or later of the padded string.\<close>

lemma fill_loop_index_error_iff:
  assumes clean: "list_all (\<lambda>ch. is_digit ch = is_decimal ch) s"
    and len: "length (roll_x_cm L) = 3" "length (bubble_y_top_cm L) = 3"
  shows "fill_loop L 0 s c = Inl IndexError \<longleftrightarrow> list_ex is_decimal (drop 3 s)"
proof
  assume "list_ex is_decimal (drop 3 s)"
  then obtain j where j: "j < length (drop 3 s)" "is_decimal (drop 3 s ! j)"
    by (auto simp: list_ex_length)
  then have "3 + j < length s" "is_decimal (s ! (3 + j))" by simp_all
  then show "fill_loop L 0 s c = Inl IndexError"
    by (intro fill_loop_index_error [OF clean, of "3 + j"]) (simp_all add: len)
next
  assume err: "fill_loop L 0 s c = Inl IndexError"
  show "list_ex is_decimal (drop 3 s)"
  proof (rule ccontr)
    assume no: "\<not> list_ex is_decimal (drop 3 s)"
    have "0 + k < length (roll_x_cm L)" if "k < length s" "is_decimal (s ! k)" for k
    proof (rule ccontr)
      assume "\<not> 0 + k < length (roll_x_cm L)"
      then have "3 \<le> k" by (simp add: len)
      then obtain j where "k = 3 + j" by (metis le_Suc_ex)
      with that have "j < length (drop 3 s)" "is_decimal (drop 3 s ! j)" by simp_all
      with no show False by (auto simp: list_ex_length)
    qed
    then have "fill_loop L 0 s c = Inr (c @ bubble_ops L 0 s)"
      by (intro fill_loop_succeeds [OF clean]) (simp_all add: len)
    with err show False by simp
  qed
qed

lemma fill_roll_bubbles_index_error_iff:
  assumes "list_all (\<lambda>ch. is_digit ch = is_decimal ch) (zfill 3 roll_no)"
  shows "fill_roll_bubbles_master c roll_no = Inl IndexError \<longleftrightarrow> list_ex is_decimal (drop 3 (zfill 3 roll_no))"
    and "fill_roll_bubbles_child c roll_no = Inl IndexError \<longleftrightarrow> list_ex is_decimal (drop 3 (zfill 3 roll_no))"
  using assms
  by (simp_all add: fill_roll_bubbles_master_def fill_roll_bubbles_child_def
      fill_loop_index_error_iff layout_lengths)

text \<open>
  For a roll string of three characters without superscript digits, both filling
  functions add exactly the bubbles of the specification to the canvas: the result is a
  function of the variant and the roll string.
\<close>

lemma fill_roll_bubbles_coordinates:
  assumes "length roll_no = 3" and "list_all (\<lambda>ch. is_digit ch = is_decimal ch) roll_no"
  shows "fill_roll_bubbles_master c roll_no = Inr (c @ bubble_ops master_layout 0 roll_no)"
    and "fill_roll_bubbles_child c roll_no = Inr (c @ bubble_ops child_layout 0 roll_no)"
  using assms
  by (simp_all add: fill_roll_bubbles_master_def fill_roll_bubbles_child_def zfill_id
      fill_loop_coordinates layout_lengths)

lemma fill_roll_bubbles_example:
  "fill_roll_bubbles_master [] ''1a3'' =
     Inr [SetFillColor ''black'',
          Circle ((10.1 * cm) / 2.2) ((22 - 1 * 0.62 - 2.6 + 0.03) * cm) (0.24 * cm),
          SetFillColor ''black'',
          Circle ((12.9 * cm) / 2.2) ((22 - 3 * 0.62 - 2.6 + 0.03) * cm) (0.24 * cm)]"
proof -
  have clean: "list_all (\<lambda>ch. is_digit ch = is_decimal ch) ''1a3''" by code_simp
  have dec: "is_decimal (CHR ''1'')" "\<not> is_decimal (CHR ''a'')" "is_decimal (CHR ''3'')"
    and val: "digit_val (CHR ''1'') = 1" "digit_val (CHR ''3'') = 3"
    by code_simp+
  show ?thesis
    using fill_roll_bubbles_coordinates(1) [OF _ clean, of "[]"]
    by (simp add: dec val master_layout_def MASTER_ROLL_X_CM_def MASTER_BUBBLE_Y_TOP_CM_def
        MASTER_BUBBLE_SPACING_CM_def MASTER_BUBBLE_RADIUS_CM_def MASTER_FINE_TUNE_CM_def
        numeral_2_eq_2)
qed

text \<open>
  Claim C6 fails on the code at a three-character roll string with a superscript digit,
  which the normalizer returns for such a cell: the character passes \<open>isdigit\<close>, so it is
  not skipped, and \<open>int\<close> raises \<open>ValueError\<close> on it.
\<close>

theorem fill_roll_bubbles_superscript_raises:
  "fill_roll_bubbles_master [] [CHR ''1'', CHR ''2'', CHR 0xB2] = Inl ValueError
   \<and> fill_roll_bubbles_child [] [CHR ''1'', CHR ''2'', CHR 0xB2] = Inl ValueError
   \<and> format_roll_value (PStr [CHR ''1'', CHR ''2'', CHR 0xB2]) = Inr [CHR ''1'', CHR ''2'', CHR 0xB2]
   \<and> \<not> is_decimal (CHR 0xB2)"
  by code_simp

section \<open>Properties of the batch orchestrator\<close>

lemma sheets_loop_entries:
  "sheets_loop readable sheets zipf = Inr zipf' \<Longrightarrow>
     \<exists>new. zipf' = zipf @ new
       \<and> list_all2 (\<lambda>sh e. fst e = safe_filename (sheet_name sh) @ ''.pdf''
                          \<and> render_sheet readable sh = Inr (snd e)) sheets new"
proof (induction sheets arbitrary: zipf)
  case Nil
  then show ?case by simp
next
  case (Cons sh rest)
  from Cons.prems obtain pdf_data where
    pdf: "render_sheet readable sh = Inr pdf_data"
    and loop: "sheets_loop readable rest (zipf @ [(safe_filename (sheet_name sh) @ ''.pdf'', pdf_data)]) = Inr zipf'"
    by (auto simp: and_then_Inr_iff)
  from Cons.IH [OF loop] obtain new where
    "zipf' = (zipf @ [(safe_filename (sheet_name sh) @ ''.pdf'', pdf_data)]) @ new"
    and "list_all2 (\<lambda>sh e. fst e = safe_filename (sheet_name sh) @ ''.pdf''
                          \<and> render_sheet readable sh = Inr (snd e)) rest new"
    by blast
  with pdf show ?case
    by (intro exI [of _ "(safe_filename (sheet_name sh) @ ''.pdf'', pdf_data) # new"]) simp
qed

lemma generate_entries:
  assumes "generate present readable sheets = Inr zipf"
  shows "list_all2 (\<lambda>sh e. fst e = safe_filename (sheet_name sh) @ ''.pdf''
                          \<and> render_sheet readable sh = Inr (snd e)) sheets zipf"
proof -
  from assms have "sheets_loop readable sheets [] = Inr zipf"
    by (auto simp: generate_def split: if_splits)
  from sheets_loop_entries [OF this] show ?thesis by simp
qed

text \<open>The run completes exactly when both template files exist and every worksheet
  renders without an exception or a stop.\<close>

lemma sheets_loop_completes_iff:
  "(\<exists>zipf'. sheets_loop readable sheets zipf = Inr zipf')
     \<longleftrightarrow> list_all (\<lambda>sh. \<exists>pdf. render_sheet readable sh = Inr pdf) sheets"
proof (induction sheets arbitrary: zipf)
  case Nil
  show ?case by simp
next
  case (Cons sh rest)
  show ?case
  proof (cases "render_sheet readable sh")
    case (Inl e)
    then show ?thesis by simp
  next
    case (Inr pdf)
    with Cons [of "zipf @ [(safe_filename (sheet_name sh) @ ''.pdf'', pdf)]"] show ?thesis
      by simp
  qed
qed

lemma generate_completes_iff:
  "(\<exists>zipf. generate present readable sheets = Inr zipf)
     \<longleftrightarrow> present Child \<and> present Master
         \<and> list_all (\<lambda>sh. \<exists>pdf. render_sheet readable sh = Inr pdf) sheets"
  using sheets_loop_completes_iff [of readable sheets "[]"]
  by (auto simp: generate_def)

lemma distinct_map_append_suffix:
  "distinct (map (\<lambda>x. f x @ ext) xs) \<longleftrightarrow> distinct (map f xs)"
  by (induction xs) auto

text \<open>
  Claim C3, as stated, fails: the worksheet names \<open>"Class 1"\<close> and \<open>"Class_1"\<close> are
  distinct, and the archive gets two entries of the same name \<open>"Class_1.pdf"\<close>.
\<close>

theorem archive_names_collide:
  "generate (\<lambda>t. True) (\<lambda>t. True)
      [\<lparr>sheet_name = ''Class 1'', columns = [], rows = []\<rparr>,
       \<lparr>sheet_name = ''Class_1'', columns = [], rows = []\<rparr>]
     = Inr [(''Class_1.pdf'', []), (''Class_1.pdf'', [])]
   \<and> ''Class 1'' \<noteq> ''Class_1''"
  by code_simp

text \<open>
  Claim C3, amended. For every upload whose generation completes, the archive holds, in
  worksheet order, exactly one entry per worksheet, named with the sanitized worksheet
  name plus \<open>".pdf"\<close> and holding that worksheet's PDF; the entry names are pairwise
  distinct exactly when the sanitized worksheet names are.
\<close>

theorem archive_one_entry_per_sheet:
  assumes "generate present readable sheets = Inr zipf"
  shows "length zipf = length sheets
       \<and> map fst zipf = map (\<lambda>sh. safe_filename (sheet_name sh) @ ''.pdf'') sheets
       \<and> list_all2 (\<lambda>sh e. render_sheet readable sh = Inr (snd e)) sheets zipf
       \<and> (distinct (map fst zipf) \<longleftrightarrow> distinct (map (\<lambda>sh. safe_filename (sheet_name sh)) sheets))"
proof -
  note e = generate_entries [OF assms]
  then have len: "length zipf = length sheets"
    by (simp add: list_all2_lengthD)
  have names: "map fst zipf = map (\<lambda>sh. safe_filename (sheet_name sh) @ ''.pdf'') sheets"
    using e by (induction sheets zipf rule: list_all2_induct) auto
  have pdfs: "list_all2 (\<lambda>sh e. render_sheet readable sh = Inr (snd e)) sheets zipf"
    using e by (rule list_all2_mono) simp
  from len names pdfs show ?thesis
    by (simp add: distinct_map_append_suffix)
qed

theorem archive_one_entry_per_sheet_witness:
  "generate (\<lambda>t. True) (\<lambda>t. True)
      [\<lparr>sheet_name = ''My/Sheet:1'', columns = [], rows = []\<rparr>,
       \<lparr>sheet_name = ''Class 1'', columns = [], rows = []\<rparr>]
     = Inr [(''My_Sheet_1.pdf'', []), (''Class_1.pdf'', [])]
   \<and> length [(''My_Sheet_1.pdf'', []), (''Class_1.pdf'', [] :: canvas)] = length [''My/Sheet:1'', ''Class 1'']
   \<and> distinct [''My_Sheet_1.pdf'', ''Class_1.pdf'']"
proof -
  have g: "generate (\<lambda>t. True) (\<lambda>t. True)
      [\<lparr>sheet_name = ''My/Sheet:1'', columns = [], rows = []\<rparr>,
       \<lparr>sheet_name = ''Class 1'', columns = [], rows = []\<rparr>]
     = Inr [(''My_Sheet_1.pdf'', []), (''Class_1.pdf'', [])]"
    by code_simp
  from archive_one_entry_per_sheet [OF g] g show ?thesis by simp
qed

end
